theory Spec2Isabelle
  imports Main
begin

section \<open>Task Tracker API: the FastAPI program (main.py) and the Django view set (tasks/views.py)\<close>

subsection \<open>Data\<close>

text \<open>
  A task is the dictionary both programs build in their create handler, and the
  \<^verbatim>\<open>Task\<close> model of main.py: five fields. The status is kept as the string the
  programs store. The field \<^verbatim>\<open>id\<close> is written \<open>id'\<close>.
  A Python \<^verbatim>\<open>str\<close> is modelled as the list of its code points, one \<open>char\<close> each
  (code points below 256), so that \<open>length\<close> is Python's \<^verbatim>\<open>len\<close>.
\<close>

record task =
  id' :: int
  description :: string
  status :: string
  createdAt :: string
  updatedAt :: string

text \<open>
  The three ways a request fails: the request is rejected as invalid (status 400 in the
  Django views, the rejection of the request body by the pydantic model in FastAPI), the
  task is not found (404), or an exception escapes the handler.
\<close>

datatype error = ValidationError | NotFoundError | ServerError

subsection \<open>The backing file\<close>

text \<open>
  The file \<^verbatim>\<open>tasks.json\<close> is the only state. It is absent (\<open>None\<close>) or has a content,
  and the handlers see the content as the JSON library decodes it: \<open>NotJson s\<close> is a
  text \<open>s\<close> that \<^verbatim>\<open>json.load\<close> rejects with \<^verbatim>\<open>JSONDecodeError\<close>, and \<open>TaskArray tasks\<close>
  is the text that \<^verbatim>\<open>json.dump\<close> writes for the list \<open>tasks\<close>. The texts themselves, the
  decoder and the encoder come further down (\<open>decode_text\<close>, \<open>json_dumps\<close>), with the
  proof that the text written for a list of tasks decodes to that list.
  A file holding JSON that is not an array of task objects, and a failure of the file
  system, are outside the model. So is, for the handlers, a text on which \<^verbatim>\<open>json.load\<close>
  raises another error than \<^verbatim>\<open>JSONDecodeError\<close>: it has no content here, and what
  \<^verbatim>\<open>load_tasks\<close> does on it is told by \<open>load_tasks_text\<close> further down, on the text.
\<close>

datatype content = NotJson string | TaskArray "task list"

type_synonym tasks_file = "content option"

fun json_load :: "content \<Rightarrow> task list option" where
  "json_load (NotJson s) = None"
| "json_load (TaskArray tasks) = Some tasks"

definition json_dump :: "task list \<Rightarrow> content" where
  "json_dump tasks = TaskArray tasks"

text \<open>
  \<^verbatim>\<open>load_tasks\<close> of main.py and \<^verbatim>\<open>_load_tasks\<close> of views.py are the same function, and so
  are \<^verbatim>\<open>save_tasks\<close> and \<^verbatim>\<open>_save_tasks\<close>, \<^verbatim>\<open>get_next_id\<close> and \<^verbatim>\<open>_get_next_id\<close>.
\<close>

definition load_tasks :: "tasks_file \<Rightarrow> task list" where
  "load_tasks f =
     (case f of
        None \<Rightarrow> []
      | Some c \<Rightarrow> (case json_load c of None \<Rightarrow> [] | Some tasks \<Rightarrow> tasks))"

definition save_tasks :: "task list \<Rightarrow> tasks_file" where
  "save_tasks tasks = Some (json_dump tasks)"

text \<open>
  \<^verbatim>\<open>max(task['id'] for task in tasks) + 1\<close>: the running maximum over the ids, started
  at the first one; the empty list is answered before.
\<close>

definition get_next_id :: "task list \<Rightarrow> int" where
  "get_next_id tasks =
     (if tasks = [] then 1
      else foldl max (id' (hd tasks)) (map id' (tl tasks)) + 1)"

text \<open>
  \<^verbatim>\<open>find_task_index\<close> (main.py): the position of the first task with the id, or -1.
\<close>

fun find_from :: "nat \<Rightarrow> task list \<Rightarrow> int \<Rightarrow> int" where
  "find_from idx [] task_id = - 1"
| "find_from idx (t # ts) task_id =
     (if id' t = task_id then int idx else find_from (Suc idx) ts task_id)"

definition find_task_index :: "task list \<Rightarrow> int \<Rightarrow> int" where
  "find_task_index tasks task_id = find_from 0 tasks task_id"

text \<open>
  \<^verbatim>\<open>_find_task\<close> (views.py): the position and the task, or \<^verbatim>\<open>(None, None)\<close>.
\<close>

fun find_task_from :: "nat \<Rightarrow> task list \<Rightarrow> int \<Rightarrow> (nat \<times> task) option" where
  "find_task_from idx [] task_id = None"
| "find_task_from idx (t # ts) task_id =
     (if id' t = task_id then Some (idx, t) else find_task_from (Suc idx) ts task_id)"

definition find_task :: "task list \<Rightarrow> int \<Rightarrow> (nat \<times> task) option" where
  "find_task tasks task_id = find_task_from 0 tasks task_id"

text \<open>\<^verbatim>\<open>tasks.pop(idx)\<close> for an index inside the list.\<close>

definition pop :: "'a list \<Rightarrow> nat \<Rightarrow> 'a list" where
  "pop xs idx = take idx xs @ drop (Suc idx) xs"

definition valid_statuses :: "string list" where
  "valid_statuses = [''todo'', ''in-progress'', ''done'']"

subsection \<open>main.py (FastAPI)\<close>

text \<open>
  FastAPI checks the request body against the pydantic model of the handler's parameter
  before the handler runs; that check is the first step of each handler here. The
  models \<^verbatim>\<open>TaskCreate\<close> and \<^verbatim>\<open>TaskUpdate\<close> ask for a string of length 1 to 500, and
  \<^verbatim>\<open>TaskStatus\<close> for one of the three literals. The argument \<open>now\<close> is
  \<^verbatim>\<open>datetime.now().isoformat()\<close>. A handler that writes returns the file it leaves.
\<close>

definition TaskCreate :: "string \<Rightarrow> error + string" where
  "TaskCreate d = (if 1 \<le> length d \<and> length d \<le> 500 then Inr d else Inl ValidationError)"

definition TaskUpdate :: "string \<Rightarrow> error + string" where
  "TaskUpdate d = (if 1 \<le> length d \<and> length d \<le> 500 then Inr d else Inl ValidationError)"

definition TaskStatus :: "string \<Rightarrow> error + string" where
  "TaskStatus s = (if s \<in> set valid_statuses then Inr s else Inl ValidationError)"

definition create_task :: "string \<Rightarrow> string \<Rightarrow> tasks_file \<Rightarrow> (error + task) \<times> tasks_file" where
  "create_task now body f =
     (case TaskCreate body of
        Inl e \<Rightarrow> (Inl e, f)
      | Inr d \<Rightarrow>
          (let tasks = load_tasks f;
               new_task = \<lparr>id' = get_next_id tasks, description = d, status = ''todo'',
                           createdAt = now, updatedAt = now\<rparr>
           in (Inr new_task, save_tasks (tasks @ [new_task]))))"

definition list_tasks :: "tasks_file \<Rightarrow> task list" where
  "list_tasks f = load_tasks f"

definition list_tasks_by_status :: "string \<Rightarrow> tasks_file \<Rightarrow> error + task list" where
  "list_tasks_by_status task_status f =
     (if task_status \<notin> set valid_statuses then Inl ValidationError
      else Inr (filter (\<lambda>t. status t = task_status) (load_tasks f)))"

definition get_task :: "int \<Rightarrow> tasks_file \<Rightarrow> error + task" where
  "get_task task_id f =
     (let tasks = load_tasks f; idx = find_task_index tasks task_id
      in if idx = - 1 then Inl NotFoundError else Inr (tasks ! nat idx))"

definition update_task :: "string \<Rightarrow> int \<Rightarrow> string \<Rightarrow> tasks_file \<Rightarrow> (error + task) \<times> tasks_file" where
  "update_task now task_id body f =
     (case TaskUpdate body of
        Inl e \<Rightarrow> (Inl e, f)
      | Inr d \<Rightarrow>
          (let tasks = load_tasks f; idx = find_task_index tasks task_id
           in if idx = - 1 then (Inl NotFoundError, f)
              else (let i = nat idx;
                        tasks1 = tasks[i := (tasks ! i)\<lparr>description := d\<rparr>];
                        tasks2 = tasks1[i := (tasks1 ! i)\<lparr>updatedAt := now\<rparr>]
                    in (Inr (tasks2 ! i), save_tasks tasks2))))"

definition update_task_status :: "string \<Rightarrow> int \<Rightarrow> string \<Rightarrow> tasks_file \<Rightarrow> (error + task) \<times> tasks_file" where
  "update_task_status now task_id body f =
     (case TaskStatus body of
        Inl e \<Rightarrow> (Inl e, f)
      | Inr s \<Rightarrow>
          (let tasks = load_tasks f; idx = find_task_index tasks task_id
           in if idx = - 1 then (Inl NotFoundError, f)
              else (let i = nat idx;
                        tasks1 = tasks[i := (tasks ! i)\<lparr>status := s\<rparr>];
                        tasks2 = tasks1[i := (tasks1 ! i)\<lparr>updatedAt := now\<rparr>]
                    in (Inr (tasks2 ! i), save_tasks tasks2))))"

definition delete_task :: "int \<Rightarrow> tasks_file \<Rightarrow> (error + unit) \<times> tasks_file" where
  "delete_task task_id f =
     (let tasks = load_tasks f; idx = find_task_index tasks task_id
      in if idx = - 1 then (Inl NotFoundError, f)
         else (Inr (), save_tasks (pop tasks (nat idx))))"

definition mark_in_progress :: "string \<Rightarrow> int \<Rightarrow> tasks_file \<Rightarrow> (error + task) \<times> tasks_file" where
  "mark_in_progress now task_id f = update_task_status now task_id ''in-progress'' f"

definition mark_done :: "string \<Rightarrow> int \<Rightarrow> tasks_file \<Rightarrow> (error + task) \<times> tasks_file" where
  "mark_done now task_id f = update_task_status now task_id ''done'' f"

subsection \<open>tasks/views.py (Django REST framework)\<close>

text \<open>
  The values a JSON request body holds (numbers with a fraction are left out), and
  Python's truth value of each, as \<^verbatim>\<open>not description\<close> tests it.
\<close>

datatype pyval =
    PNone
  | PBool bool
  | PInt int
  | PStr string
  | PList "pyval list"
  | PDict "(string \<times> pyval) list"

fun truthy :: "pyval \<Rightarrow> bool" where
  "truthy PNone = False"
| "truthy (PBool b) = b"
| "truthy (PInt i) = (i \<noteq> 0)"
| "truthy (PStr s) = (s \<noteq> [])"
| "truthy (PList xs) = (xs \<noteq> [])"
| "truthy (PDict kvs) = (kvs \<noteq> [])"

text \<open>\<^verbatim>\<open>request.data.get(key)\<close>: the value, or \<^verbatim>\<open>None\<close> when the key is absent.\<close>

definition data_get :: "(string \<rightharpoonup> pyval) \<Rightarrow> string \<Rightarrow> pyval" where
  "data_get data k = (case data k of None \<Rightarrow> PNone | Some v \<Rightarrow> v)"

text \<open>
  \<^verbatim>\<open>str.strip()\<close> removes the white space at both ends; below 256 the white-space
  code points are 9 to 13, 28 to 32, 133 and 160.
\<close>

definition isspace :: "char \<Rightarrow> bool" where
  "isspace c = ((of_char c :: nat) \<in> {9, 10, 11, 12, 13, 28, 29, 30, 31, 32, 133, 160})"

definition strip :: "string \<Rightarrow> string" where
  "strip s = rev (dropWhile isspace (rev (dropWhile isspace s)))"

text \<open>
  \<^verbatim>\<open>list\<close>: the query parameters map a name to its text. The views are named with the
  suffix \<open>_view\<close>. The path argument \<open>pk\<close> is given as \<^verbatim>\<open>int(pk)\<close> makes it: \<open>None\<close>
  when the conversion raises. In \<^verbatim>\<open>status\<close>, a value that is not a string is not in the
  list of the three status names.
\<close>

definition list_view :: "(string \<rightharpoonup> string) \<Rightarrow> tasks_file \<Rightarrow> error + task list" where
  "list_view query_params f =
     (let status_filter = query_params ''status''; tasks = load_tasks f
      in case status_filter of
           None \<Rightarrow> Inr tasks
         | Some sf \<Rightarrow>
             if sf = [] then Inr tasks
             else if sf \<notin> set valid_statuses then Inl ValidationError
             else Inr (filter (\<lambda>t. status t = sf) tasks))"

definition create_view :: "string \<Rightarrow> (string \<rightharpoonup> pyval) \<Rightarrow> tasks_file \<Rightarrow> (error + task) \<times> tasks_file" where
  "create_view now data f =
     (let d = data_get data ''description''
      in if \<not> truthy d then (Inl ValidationError, f)
         else (case d of
                 PStr s \<Rightarrow>
                   if length (strip s) = 0 then (Inl ValidationError, f)
                   else (let tasks = load_tasks f;
                             new_task = \<lparr>id' = get_next_id tasks, description = strip s,
                                         status = ''todo'', createdAt = now, updatedAt = now\<rparr>
                         in (Inr new_task, save_tasks (tasks @ [new_task])))
               | _ \<Rightarrow> (Inl ValidationError, f)))"

definition retrieve_view :: "int option \<Rightarrow> tasks_file \<Rightarrow> error + task" where
  "retrieve_view pk f =
     (case pk of
        None \<Rightarrow> Inl ValidationError
      | Some task_id \<Rightarrow>
          (case find_task (load_tasks f) task_id of
             None \<Rightarrow> Inl NotFoundError
           | Some (idx, t) \<Rightarrow> Inr t))"

text \<open>
  \<^verbatim>\<open>update\<close> calls \<^verbatim>\<open>description.strip()\<close> without asking whether the description is a
  string: on another truthy value the call raises \<^verbatim>\<open>AttributeError\<close>, before anything is saved.
\<close>

definition update_view :: "string \<Rightarrow> int option \<Rightarrow> (string \<rightharpoonup> pyval) \<Rightarrow> tasks_file \<Rightarrow> (error + task) \<times> tasks_file" where
  "update_view now pk data f =
     (case pk of
        None \<Rightarrow> (Inl ValidationError, f)
      | Some task_id \<Rightarrow>
          (let d = data_get data ''description''
           in if \<not> truthy d then (Inl ValidationError, f)
              else (let tasks = load_tasks f
                    in case find_task tasks task_id of
                         None \<Rightarrow> (Inl NotFoundError, f)
                       | Some (idx, t) \<Rightarrow>
                           (case d of
                              PStr s \<Rightarrow>
                                (let tasks1 = tasks[idx := (tasks ! idx)\<lparr>description := strip s\<rparr>];
                                     tasks2 = tasks1[idx := (tasks1 ! idx)\<lparr>updatedAt := now\<rparr>]
                                 in (Inr (tasks2 ! idx), save_tasks tasks2))
                            | _ \<Rightarrow> (Inl ServerError, f)))))"

definition destroy_view :: "int option \<Rightarrow> tasks_file \<Rightarrow> (error + unit) \<times> tasks_file" where
  "destroy_view pk f =
     (case pk of
        None \<Rightarrow> (Inl ValidationError, f)
      | Some task_id \<Rightarrow>
          (let tasks = load_tasks f
           in case find_task tasks task_id of
                None \<Rightarrow> (Inl NotFoundError, f)
              | Some (idx, t) \<Rightarrow> (Inr (), save_tasks (pop tasks idx))))"

definition status_view :: "string \<Rightarrow> int option \<Rightarrow> (string \<rightharpoonup> pyval) \<Rightarrow> tasks_file \<Rightarrow> (error + task) \<times> tasks_file" where
  "status_view now pk data f =
     (case pk of
        None \<Rightarrow> (Inl ValidationError, f)
      | Some task_id \<Rightarrow>
          (case data_get data ''status'' of
             PStr new_status \<Rightarrow>
               if new_status \<notin> set valid_statuses then (Inl ValidationError, f)
               else (let tasks = load_tasks f
                     in case find_task tasks task_id of
                          None \<Rightarrow> (Inl NotFoundError, f)
                        | Some (idx, t) \<Rightarrow>
                            (let tasks1 = tasks[idx := (tasks ! idx)\<lparr>status := new_status\<rparr>];
                                 tasks2 = tasks1[idx := (tasks1 ! idx)\<lparr>updatedAt := now\<rparr>]
                             in (Inr (tasks2 ! idx), save_tasks tasks2)))
           | _ \<Rightarrow> (Inl ValidationError, f)))"

definition mark_in_progress_view :: "string \<Rightarrow> int option \<Rightarrow> (string \<rightharpoonup> pyval) \<Rightarrow> tasks_file \<Rightarrow> (error + task) \<times> tasks_file" where
  "mark_in_progress_view now pk data f = status_view now pk (data(''status'' \<mapsto> PStr ''in-progress'')) f"

definition mark_done_view :: "string \<Rightarrow> int option \<Rightarrow> (string \<rightharpoonup> pyval) \<Rightarrow> tasks_file \<Rightarrow> (error + task) \<times> tasks_file" where
  "mark_done_view now pk data f = status_view now pk (data(''status'' \<mapsto> PStr ''done'')) f"

subsection \<open>The JSON text of the file\<close>

text \<open>
  What \<open>TaskArray\<close> and \<open>NotJson\<close> stand for, as text. \<^verbatim>\<open>json.dump(tasks, f, indent=2)\<close>
  and \<^verbatim>\<open>json.load(f)\<close> are Python's; they are modelled here on texts of code points
  below 256, as far as a file of tasks needs them.

  The decoder follows the scanner of the \<^verbatim>\<open>json\<close> module: white space is blank, tab,
  line feed and carriage return; a string ends at the next quote, may not hold a control
  character, and knows the escapes of JSON; a number is an optional minus sign and the
  digits 0 or 1-9 followed by digits; an object keeps the last value of a repeated key;
  after the value only white space may follow.

  The result is \<open>Rejected\<close> where the module raises \<^verbatim>\<open>JSONDecodeError\<close>. It is
  \<open>RecursionError\<close> where the interpreter raises the error of that name: the scanner
  calls itself for every array and object that the text opens inside another, and the
  interpreter bounds the depth of such calls. The argument \<open>d\<close> is the number of levels
  left when \<^verbatim>\<open>json.load\<close> is called, which the interpreter fixes (in Python 3.11 the
  recursion limit is 1000 unless changed, and the calls under way count against it);
  an opening bracket or brace met with no level left ends the scan. The
  result is \<open>Beyond\<close> where the text leaves what is modelled: a number with a fraction
  or an exponent, \<^verbatim>\<open>NaN\<close> and the infinities, an escape of a code point above 255.

  The first argument of \<open>scan_once\<close> is fuel, which makes the recursion structural. It
  goes down by two for each level of nesting and for each item; \<open>json_loads\<close> gives twice
  the length of the text and one more, and \<open>OutOfFuel\<close>, the answer of a scan left
  without fuel, is proved below never to be the answer of \<open>json_loads\<close>.

  Not modelled: bytes that are no text in the encoding of the platform, on which reading
  the file raises \<^verbatim>\<open>UnicodeDecodeError\<close>, and the limit of 4300 digits on an integer
  literal that Python has from version 3.11 on (\<^verbatim>\<open>ValueError\<close>); the programs name no
  version of Python.
\<close>

datatype json =
    JNull
  | JBool bool
  | JInt int
  | JStr string
  | JArr "json list"
  | JObj "(string \<times> json) list"

datatype 'a scanned = Rejected | RecursionError | OutOfFuel | Beyond | Scanned 'a

fun then_scan :: "'a scanned \<Rightarrow> ('a \<Rightarrow> 'b scanned) \<Rightarrow> 'b scanned" where
  "then_scan Rejected k = Rejected"
| "then_scan RecursionError k = RecursionError"
| "then_scan OutOfFuel k = OutOfFuel"
| "then_scan Beyond k = Beyond"
| "then_scan (Scanned x) k = k x"

definition is_ws :: "char \<Rightarrow> bool" where
  "is_ws c = ((of_char c :: nat) \<in> {32, 9, 10, 13})"

definition skip_ws :: "string \<Rightarrow> string" where
  "skip_ws s = dropWhile is_ws s"

definition is_digit :: "char \<Rightarrow> bool" where
  "is_digit c = (48 \<le> (of_char c :: nat) \<and> (of_char c :: nat) \<le> 57)"

definition digit_val :: "char \<Rightarrow> nat" where
  "digit_val c = of_char c - 48"

definition nat_of_digits :: "string \<Rightarrow> nat" where
  "nat_of_digits ds = foldl (\<lambda>a c. 10 * a + digit_val c) 0 ds"

definition starts :: "string \<Rightarrow> string \<Rightarrow> bool" where
  "starts p s = (take (length p) s = p)"

definition has_frac :: "string \<Rightarrow> bool" where
  "has_frac s = (case s of c # d # r \<Rightarrow> c = CHR ''.'' \<and> is_digit d | _ \<Rightarrow> False)"

definition has_exp :: "string \<Rightarrow> bool" where
  "has_exp s =
     (case s of
        c # d # r \<Rightarrow>
          (c = CHR ''e'' \<or> c = CHR ''E'') \<and>
          (is_digit d \<or> ((d = CHR ''+'' \<or> d = CHR ''-'') \<and> (case r of x # y \<Rightarrow> is_digit x | [] \<Rightarrow> False)))
      | _ \<Rightarrow> False)"

definition scan_number :: "string \<Rightarrow> (json \<times> string) scanned" where
  "scan_number s =
     (let neg = starts ''-'' s;
          s1 = (if neg then tl s else s);
          ds = takeWhile is_digit s1;
          ip = (if starts ''0'' ds then ''0'' else ds);
          r = drop (length ip) s1
      in if ip = [] then (if neg \<and> starts ''Infinity'' s1 then Beyond else Rejected)
         else if has_frac r \<or> has_exp r then Beyond
         else Scanned (JInt (if neg then - int (nat_of_digits ip) else int (nat_of_digits ip)), r))"

definition hex_val :: "char \<Rightarrow> nat option" where
  "hex_val c =
     (let n = (of_char c :: nat)
      in if 48 \<le> n \<and> n \<le> 57 then Some (n - 48)
         else if 97 \<le> n \<and> n \<le> 102 then Some (n - 87)
         else if 65 \<le> n \<and> n \<le> 70 then Some (n - 55)
         else None)"

definition hex4 :: "string \<Rightarrow> nat option" where
  "hex4 s =
     (case s of
        a # b # c # d # r \<Rightarrow>
          (case (hex_val a, hex_val b, hex_val c, hex_val d) of
             (Some w, Some x, Some y, Some z) \<Rightarrow> Some (((w * 16 + x) * 16 + y) * 16 + z)
           | _ \<Rightarrow> None)
      | _ \<Rightarrow> None)"

definition backslash :: "char \<Rightarrow> char option" where
  "backslash e =
     (if e = CHR 0x22 then Some (CHR 0x22)
      else if e = CHR 0x5C then Some (CHR 0x5C)
      else if e = CHR ''/'' then Some (CHR ''/'')
      else if e = CHR ''b'' then Some (CHR 0x08)
      else if e = CHR ''f'' then Some (CHR 0x0C)
      else if e = CHR ''n'' then Some (CHR 0x0A)
      else if e = CHR ''r'' then Some (CHR 0x0D)
      else if e = CHR ''t'' then Some (CHR 0x09)
      else None)"

fun scanstring :: "string \<Rightarrow> (string \<times> string) scanned" where
  "scanstring [] = Rejected"
| "scanstring (c # r) =
     (if c = CHR 0x22 then Scanned ([], r)
      else if c = CHR 0x5C then
        (case r of
           [] \<Rightarrow> Rejected
         | e # r' \<Rightarrow>
             if e = CHR ''u'' then
               (case hex4 r' of
                  None \<Rightarrow> Rejected
                | Some n \<Rightarrow>
                    if n < 256
                    then then_scan (scanstring (drop 4 r')) (\<lambda>(str, rest). Scanned (char_of n # str, rest))
                    else Beyond)
             else
               (case backslash e of
                  None \<Rightarrow> Rejected
                | Some x \<Rightarrow> then_scan (scanstring r') (\<lambda>(str, rest). Scanned (x # str, rest))))
      else if (of_char c :: nat) < 32 then Rejected
      else then_scan (scanstring r) (\<lambda>(str, rest). Scanned (c # str, rest)))"

fun dict_set :: "(string \<times> json) list \<Rightarrow> string \<Rightarrow> json \<Rightarrow> (string \<times> json) list" where
  "dict_set [] k v = [(k, v)]"
| "dict_set ((k', v') # kvs) k v = (if k' = k then (k, v) # kvs else (k', v') # dict_set kvs k v)"

definition dict_of :: "(string \<times> json) list \<Rightarrow> (string \<times> json) list" where
  "dict_of pairs = foldl (\<lambda>d (k, v). dict_set d k v) [] pairs"

fun scan_once :: "nat \<Rightarrow> nat \<Rightarrow> string \<Rightarrow> (json \<times> string) scanned"
  and scan_items :: "nat \<Rightarrow> nat \<Rightarrow> string \<Rightarrow> (json list \<times> string) scanned"
  and scan_pairs :: "nat \<Rightarrow> nat \<Rightarrow> string \<Rightarrow> ((string \<times> json) list \<times> string) scanned"
where
  "scan_once 0 d s = OutOfFuel"
| "scan_once (Suc n) d s =
     (if s = [] then Rejected
      else if hd s = CHR 0x22 then
        then_scan (scanstring (tl s)) (\<lambda>(str, r). Scanned (JStr str, r))
      else if hd s = CHR ''{'' then
        (if d = 0 then RecursionError
         else if starts ''}'' (skip_ws (tl s)) then Scanned (JObj [], tl (skip_ws (tl s)))
         else then_scan (scan_pairs n (d - 1) (skip_ws (tl s)))
                (\<lambda>(kvs, r). Scanned (JObj (dict_of kvs), r)))
      else if hd s = CHR ''['' then
        (if d = 0 then RecursionError
         else if starts '']'' (skip_ws (tl s)) then Scanned (JArr [], tl (skip_ws (tl s)))
         else then_scan (scan_items n (d - 1) (skip_ws (tl s))) (\<lambda>(vs, r). Scanned (JArr vs, r)))
      else if starts ''null'' s then Scanned (JNull, drop 4 s)
      else if starts ''true'' s then Scanned (JBool True, drop 4 s)
      else if starts ''false'' s then Scanned (JBool False, drop 5 s)
      else if hd s = CHR ''-'' \<or> is_digit (hd s) then scan_number s
      else if starts ''NaN'' s \<or> starts ''Infinity'' s then Beyond
      else Rejected)"
| "scan_items 0 d s = OutOfFuel"
| "scan_items (Suc n) d s =
     then_scan (scan_once n d s) (\<lambda>(v, r).
       if starts '']'' (skip_ws r) then Scanned ([v], tl (skip_ws r))
       else if starts '','' (skip_ws r) then
         then_scan (scan_items n d (skip_ws (tl (skip_ws r)))) (\<lambda>(vs, r'). Scanned (v # vs, r'))
       else Rejected)"
| "scan_pairs 0 d s = OutOfFuel"
| "scan_pairs (Suc n) d s =
     (if \<not> starts [CHR 0x22] s then Rejected
      else then_scan (scanstring (tl s)) (\<lambda>(k, r1).
        if \<not> starts '':'' (skip_ws r1) then Rejected
        else then_scan (scan_once n d (skip_ws (tl (skip_ws r1)))) (\<lambda>(v, r2).
          if starts ''}'' (skip_ws r2) then Scanned ([(k, v)], tl (skip_ws r2))
          else if starts '','' (skip_ws r2) then
            then_scan (scan_pairs n d (skip_ws (tl (skip_ws r2))))
              (\<lambda>(kvs, r3). Scanned ((k, v) # kvs, r3))
          else Rejected)))"

definition json_loads :: "nat \<Rightarrow> string \<Rightarrow> json scanned" where
  "json_loads d s =
     then_scan (scan_once (Suc (2 * length s)) d (skip_ws s)) (\<lambda>(v, r).
       if skip_ws r = [] then Scanned v else Rejected)"

text \<open>
  \<^verbatim>\<open>load_tasks\<close> (main.py, lines 38 to 47; the same in views.py, lines 15 to 24) on the
  text of the file, with \<open>d\<close> levels of recursion left. No file gives the empty list. Of
  what \<^verbatim>\<open>json.load\<close> raises, \<^verbatim>\<open>except json.JSONDecodeError\<close> catches that error and no
  other, and the empty list is returned. Every other outcome of \<^verbatim>\<open>json.load\<close>, the value
  decoded or another error, is the outcome of \<^verbatim>\<open>load_tasks\<close>.
\<close>

definition load_tasks_text :: "nat \<Rightarrow> string option \<Rightarrow> json scanned" where
  "load_tasks_text d f =
     (case f of
        None \<Rightarrow> Scanned (JArr [])
      | Some s \<Rightarrow> (case json_loads d s of Rejected \<Rightarrow> Scanned (JArr []) | r \<Rightarrow> r))"

text \<open>
  The encoder, for a list of tasks: two blanks of indentation for each level, a comma
  and a new line between items, a colon and a blank after a key, the members of a task in
  the order in which the handlers build it, and in strings every character outside the
  printable ASCII characters escaped, as well as the quote and the backslash.
\<close>

definition hex_digit :: "nat \<Rightarrow> char" where
  "hex_digit k = ''0123456789abcdef'' ! k"

definition escape_char :: "char \<Rightarrow> string" where
  "escape_char c =
     (if c = CHR 0x22 then [CHR 0x5C, CHR 0x22]
      else if c = CHR 0x5C then [CHR 0x5C, CHR 0x5C]
      else if c = CHR 0x0A then [CHR 0x5C, CHR ''n'']
      else if c = CHR 0x0D then [CHR 0x5C, CHR ''r'']
      else if c = CHR 0x09 then [CHR 0x5C, CHR ''t'']
      else if c = CHR 0x08 then [CHR 0x5C, CHR ''b'']
      else if c = CHR 0x0C then [CHR 0x5C, CHR ''f'']
      else if 32 \<le> (of_char c :: nat) \<and> (of_char c :: nat) \<le> 126 then [c]
      else [CHR 0x5C, CHR ''u'', CHR ''0'', CHR ''0'',
            hex_digit ((of_char c :: nat) div 16), hex_digit ((of_char c :: nat) mod 16)])"

definition dumps_str :: "string \<Rightarrow> string" where
  "dumps_str s = CHR 0x22 # concat (map escape_char s) @ [CHR 0x22]"

fun digits_of :: "nat \<Rightarrow> string" where
  "digits_of n =
     (if n < 10 then [char_of (48 + n)] else digits_of (n div 10) @ [char_of (48 + n mod 10)])"

declare digits_of.simps [simp del]

definition dumps_int :: "int \<Rightarrow> string" where
  "dumps_int i = (if i < 0 then CHR ''-'' # digits_of (nat (- i)) else digits_of (nat i))"

definition newline_indent :: "nat \<Rightarrow> string" where
  "newline_indent k = CHR 0x0A # replicate k CHR '' ''"

definition dumps_task :: "task \<Rightarrow> string" where
  "dumps_task t =
     ''{'' @ newline_indent 4 @ dumps_str ''id'' @ '': '' @ dumps_int (id' t) @ '','' @
     newline_indent 4 @ dumps_str ''description'' @ '': '' @ dumps_str (description t) @ '','' @
     newline_indent 4 @ dumps_str ''status'' @ '': '' @ dumps_str (status t) @ '','' @
     newline_indent 4 @ dumps_str ''createdAt'' @ '': '' @ dumps_str (createdAt t) @ '','' @
     newline_indent 4 @ dumps_str ''updatedAt'' @ '': '' @ dumps_str (updatedAt t) @
     newline_indent 2 @ ''}''"

fun dumps_items :: "task list \<Rightarrow> string" where
  "dumps_items [] = []"
| "dumps_items [t] = dumps_task t"
| "dumps_items (t # ts) = dumps_task t @ '','' @ newline_indent 2 @ dumps_items ts"

definition json_dumps :: "task list \<Rightarrow> string" where
  "json_dumps tasks =
     (if tasks = [] then ''[]''
      else ''['' @ newline_indent 2 @ dumps_items tasks @ newline_indent 0 @ '']'')"

text \<open>
  The content of a text: \<open>NotJson\<close> for a text the decoder rejects, \<open>TaskArray\<close> for a
  text that is an array of objects with the five members of a task, and none for a text
  that holds other JSON or is beyond the decoder modelled. An array of tasks opens two
  levels, the array and a task.
\<close>

definition json_of_task :: "task \<Rightarrow> json" where
  "json_of_task t =
     JObj [(''id'', JInt (id' t)), (''description'', JStr (description t)),
           (''status'', JStr (status t)), (''createdAt'', JStr (createdAt t)),
           (''updatedAt'', JStr (updatedAt t))]"

definition task_of_json :: "json \<Rightarrow> task option" where
  "task_of_json j =
     (case j of
        JObj kvs \<Rightarrow>
          (if distinct (map fst kvs) \<and>
              set (map fst kvs) = {''id'', ''description'', ''status'', ''createdAt'', ''updatedAt''}
           then (case (map_of kvs ''id'', map_of kvs ''description'', map_of kvs ''status'',
                       map_of kvs ''createdAt'', map_of kvs ''updatedAt'') of
                   (Some (JInt i), Some (JStr d), Some (JStr s), Some (JStr c), Some (JStr u)) \<Rightarrow>
                     Some \<lparr>id' = i, description = d, status = s, createdAt = c, updatedAt = u\<rparr>
                 | _ \<Rightarrow> None)
           else None)
      | _ \<Rightarrow> None)"

definition tasks_of_json :: "json \<Rightarrow> task list option" where
  "tasks_of_json j =
     (case j of
        JArr vs \<Rightarrow>
          (if list_all (\<lambda>v. task_of_json v \<noteq> None) vs
           then Some (map (\<lambda>v. the (task_of_json v)) vs) else None)
      | _ \<Rightarrow> None)"

definition decode_text :: "string \<Rightarrow> content option" where
  "decode_text s =
     (case json_loads 2 s of
        Rejected \<Rightarrow> Some (NotJson s)
      | Scanned j \<Rightarrow> map_option TaskArray (tasks_of_json j)
      | _ \<Rightarrow> None)"

subsection \<open>Notions used to state the properties\<close>

text \<open>
  The position of the first task with a given id (the length of the list when there is
  none): what \<open>find_task_index\<close> and \<open>find_task\<close> compute, stated without a loop.
\<close>

definition index_of :: "task list \<Rightarrow> int \<Rightarrow> nat" where
  "index_of tasks task_id = length (takeWhile (\<lambda>t. id' t \<noteq> task_id) tasks)"

text \<open>
  The scenario of the specification, run on each program: from no file, create
  ``Buy milk'', create ``Walk dog'', then delete task 2; and, from the two tasks, mark
  task 1 done.
\<close>

definition scenario_1 :: tasks_file where
  "scenario_1 = snd (create_task ''t1'' ''Buy milk'' None)"

definition scenario_2 :: tasks_file where
  "scenario_2 = snd (create_task ''t2'' ''Walk dog'' scenario_1)"

definition scenario_3 :: tasks_file where
  "scenario_3 = snd (delete_task 2 scenario_2)"

definition view_scenario_1 :: tasks_file where
  "view_scenario_1 = snd (create_view ''t1'' [''description'' \<mapsto> PStr ''Buy milk''] None)"

definition view_scenario_2 :: tasks_file where
  "view_scenario_2 = snd (create_view ''t2'' [''description'' \<mapsto> PStr ''Walk dog''] view_scenario_1)"

definition view_scenario_3 :: tasks_file where
  "view_scenario_3 = snd (destroy_view (Some 2) view_scenario_2)"

definition scenario_done :: tasks_file where
  "scenario_done = snd (update_task_status ''t3'' 1 ''done'' scenario_2)"

text \<open>
  The files that the writing handlers of the two programs leave, starting from no file
  or from a file that is not JSON.
\<close>

inductive reachable :: "tasks_file \<Rightarrow> bool" where
  no_file: "reachable None"
| not_json: "reachable (Some (NotJson s))"
| create_task: "reachable f \<Longrightarrow> reachable (snd (create_task now d f))"
| update_task: "reachable f \<Longrightarrow> reachable (snd (update_task now i d f))"
| update_task_status: "reachable f \<Longrightarrow> reachable (snd (update_task_status now i s f))"
| delete_task: "reachable f \<Longrightarrow> reachable (snd (delete_task i f))"
| create_view: "reachable f \<Longrightarrow> reachable (snd (create_view now data f))"
| update_view: "reachable f \<Longrightarrow> reachable (snd (update_view now pk data f))"
| status_view: "reachable f \<Longrightarrow> reachable (snd (status_view now pk data f))"
| destroy_view: "reachable f \<Longrightarrow> reachable (snd (destroy_view pk f))"

section \<open>Properties\<close>

subsection \<open>The file, the next id and the search\<close>

lemma load_save: "load_tasks (save_tasks tasks) = tasks"
  by (simp add: load_tasks_def save_tasks_def json_dump_def)

lemma foldl_max_Max: "foldl max (a::int) xs = Max (set (a # xs))"
proof (induction xs arbitrary: a)
  case Nil
  show ?case by simp
next
  case (Cons x xs)
  have "foldl max a (x # xs) = foldl max (max a x) xs" by simp
  also have "\<dots> = Max (set (max a x # xs))" by (rule Cons.IH)
  also have "\<dots> = Max (set (a # x # xs))"
    by (cases "xs = []") (simp_all add: max.assoc)
  finally show ?case .
qed

lemma get_next_id_Max:
  assumes "tasks \<noteq> []"
  shows "get_next_id tasks = Max (id' ` set tasks) + 1"
proof -
  from assms obtain t ts where ts: "tasks = t # ts" by (cases tasks) auto
  show ?thesis unfolding ts get_next_id_def by (simp add: foldl_max_Max)
qed

lemma get_next_id_gt:
  assumes "t \<in> set tasks"
  shows "id' t < get_next_id tasks"
proof -
  from assms have ne: "tasks \<noteq> []" by auto
  have "id' t \<le> Max (id' ` set tasks)" using assms by simp
  then show ?thesis using get_next_id_Max [OF ne] by simp
qed

lemma index_of_Cons:
  "index_of (t # ts) i = (if id' t = i then 0 else Suc (index_of ts i))"
  by (simp add: index_of_def)

lemma index_of_less:
  assumes "i \<in> id' ` set tasks"
  shows "index_of tasks i < length tasks"
  using assms by (induction tasks) (auto simp: index_of_Cons)

lemma index_of_id:
  assumes "i \<in> id' ` set tasks"
  shows "id' (tasks ! index_of tasks i) = i"
  using assms by (induction tasks) (auto simp: index_of_Cons)

lemma index_of_first:
  assumes "m < index_of tasks i"
  shows "id' (tasks ! m) \<noteq> i"
  using assms
proof (induction tasks arbitrary: m)
  case Nil
  then show ?case by (simp add: index_of_def)
next
  case (Cons t ts)
  then show ?case by (cases m) (auto simp: index_of_Cons split: if_splits)
qed

lemma find_from_eq:
  "find_from k tasks i = (if i \<in> id' ` set tasks then int (k + index_of tasks i) else - 1)"
  by (induction tasks arbitrary: k) (auto simp: index_of_Cons)

lemma find_task_index_eq:
  "find_task_index tasks i = (if i \<in> id' ` set tasks then int (index_of tasks i) else - 1)"
  by (simp add: find_task_index_def find_from_eq)

lemma find_task_from_eq:
  "find_task_from k tasks i =
     (if i \<in> id' ` set tasks then Some (k + index_of tasks i, tasks ! index_of tasks i) else None)"
  by (induction tasks arbitrary: k) (auto simp: index_of_Cons)

lemma find_task_eq:
  "find_task tasks i =
     (if i \<in> id' ` set tasks then Some (index_of tasks i, tasks ! index_of tasks i) else None)"
  by (simp add: find_task_def find_task_from_eq)

subsection \<open>The handlers on a task that is found\<close>

lemma update_task_status_found:
  assumes "s \<in> set valid_statuses" and "i \<in> id' ` set (load_tasks f)"
  shows "update_task_status now i s f =
           (Inr ((load_tasks f ! index_of (load_tasks f) i)\<lparr>status := s, updatedAt := now\<rparr>),
            save_tasks ((load_tasks f)[index_of (load_tasks f) i :=
               (load_tasks f ! index_of (load_tasks f) i)\<lparr>status := s, updatedAt := now\<rparr>]))"
  using assms index_of_less [OF assms(2)]
  by (simp add: update_task_status_def TaskStatus_def find_task_index_eq Let_def)

lemma status_view_found:
  assumes "s \<in> set valid_statuses" and "i \<in> id' ` set (load_tasks f)"
    and "data_get data ''status'' = PStr s"
  shows "status_view now (Some i) data f =
           (Inr ((load_tasks f ! index_of (load_tasks f) i)\<lparr>status := s, updatedAt := now\<rparr>),
            save_tasks ((load_tasks f)[index_of (load_tasks f) i :=
               (load_tasks f ! index_of (load_tasks f) i)\<lparr>status := s, updatedAt := now\<rparr>]))"
  using assms index_of_less [OF assms(2)]
  by (simp add: status_view_def find_task_eq Let_def)

lemma update_task_found:
  assumes "1 \<le> length d" and "length d \<le> 500" and "i \<in> id' ` set (load_tasks f)"
  shows "update_task now i d f =
           (Inr ((load_tasks f ! index_of (load_tasks f) i)\<lparr>description := d, updatedAt := now\<rparr>),
            save_tasks ((load_tasks f)[index_of (load_tasks f) i :=
               (load_tasks f ! index_of (load_tasks f) i)\<lparr>description := d, updatedAt := now\<rparr>]))"
  using assms index_of_less [OF assms(3)]
  by (simp add: update_task_def TaskUpdate_def find_task_index_eq Let_def)

lemma update_view_found:
  assumes "s \<noteq> []" and "i \<in> id' ` set (load_tasks f)"
    and "data_get data ''description'' = PStr s"
  shows "update_view now (Some i) data f =
           (Inr ((load_tasks f ! index_of (load_tasks f) i)\<lparr>description := strip s, updatedAt := now\<rparr>),
            save_tasks ((load_tasks f)[index_of (load_tasks f) i :=
               (load_tasks f ! index_of (load_tasks f) i)\<lparr>description := strip s, updatedAt := now\<rparr>]))"
  using assms index_of_less [OF assms(2)]
  by (simp add: update_view_def find_task_eq Let_def)

lemma delete_task_found:
  assumes "i \<in> id' ` set (load_tasks f)"
  shows "delete_task i f = (Inr (), save_tasks (pop (load_tasks f) (index_of (load_tasks f) i)))"
  using assms by (simp add: delete_task_def find_task_index_eq Let_def)

lemma destroy_view_found:
  assumes "i \<in> id' ` set (load_tasks f)"
  shows "destroy_view (Some i) f = (Inr (), save_tasks (pop (load_tasks f) (index_of (load_tasks f) i)))"
  using assms by (simp add: destroy_view_def find_task_eq Let_def)

lemma pop_index_of_ids:
  assumes "distinct (map id' tasks)" and "i \<in> id' ` set tasks"
  shows "i \<notin> id' ` set (pop tasks (index_of tasks i))"
  using assms
proof (induction tasks)
  case Nil
  then show ?case by simp
next
  case (Cons t ts)
  show ?case
  proof (cases "id' t = i")
    case True
    then show ?thesis using Cons.prems by (auto simp: pop_def index_of_Cons)
  next
    case False
    then have "i \<in> id' ` set ts" using Cons.prems by auto
    moreover have "distinct (map id' ts)" using Cons.prems by simp
    ultimately have "i \<notin> id' ` set (pop ts (index_of ts i))" by (rule Cons.IH[rotated])
    then show ?thesis using False by (auto simp: pop_def index_of_Cons)
  qed
qed

lemma strip_Nil: "strip [] = []"
  by (simp add: strip_def)

lemma load_tasks_None: "load_tasks None = []"
  by (simp add: load_tasks_def)

lemma get_next_id_Nil: "get_next_id [] = 1"
  by (simp add: get_next_id_def)

lemma get_next_id_fresh: "get_next_id tasks \<notin> id' ` set tasks"
proof
  assume "get_next_id tasks \<in> id' ` set tasks"
  then obtain t where "t \<in> set tasks" and "id' t = get_next_id tasks" by auto
  then show False using get_next_id_gt [of t tasks] by simp
qed

lemma get_next_id_snoc:
  assumes "\<forall>x\<in>set tasks. id' x < id' t"
  shows "get_next_id (tasks @ [t]) = id' t + 1"
proof -
  have "Max (id' ` set (tasks @ [t])) = id' t"
    using assms by (intro Max_eqI) (auto simp: less_imp_le)
  then show ?thesis using get_next_id_Max [of "tasks @ [t]"] by simp
qed

lemma index_of_snoc_fresh:
  assumes "id' t \<notin> id' ` set tasks"
  shows "index_of (tasks @ [t]) (id' t) = length tasks"
  using assms by (induction tasks) (auto simp: index_of_Cons index_of_def)

lemma pop_snoc: "pop (xs @ [x]) (length xs) = xs"
  by (simp add: pop_def)

subsection \<open>What a successful call tells\<close>

lemma create_task_Inr:
  assumes "create_task now d f = (Inr t, f')"
  shows "t = \<lparr>id' = get_next_id (load_tasks f), description = d, status = ''todo'',
               createdAt = now, updatedAt = now\<rparr> \<and> f' = save_tasks (load_tasks f @ [t])"
  using assms by (auto simp: create_task_def TaskCreate_def Let_def split: if_splits)

lemma create_view_Inr:
  assumes "create_view now data f = (Inr t, f')"
  shows "id' t = get_next_id (load_tasks f) \<and> f' = save_tasks (load_tasks f @ [t])"
  using assms
  by (cases "data_get data ''description''")
     (auto simp: create_view_def Let_def split: if_splits)

lemma update_task_status_Inr:
  assumes "update_task_status now i s f = (Inr t, f')"
  shows "s \<in> set valid_statuses \<and> i \<in> id' ` set (load_tasks f)"
  using assms
  by (auto simp: update_task_status_def TaskStatus_def find_task_index_eq Let_def split: if_splits)

lemma status_view_Inr:
  assumes "status_view now pk data f = (Inr t, f')"
  shows "\<exists>i s. pk = Some i \<and> data_get data ''status'' = PStr s \<and> s \<in> set valid_statuses \<and>
           i \<in> id' ` set (load_tasks f)"
  using assms
  by (auto simp: status_view_def find_task_eq Let_def split: option.splits pyval.splits if_splits)

lemma delete_task_Inr:
  assumes "delete_task i f = (Inr u, f')"
  shows "i \<in> id' ` set (load_tasks f)"
  using assms by (auto simp: delete_task_def find_task_index_eq Let_def split: if_splits)

lemma destroy_view_Inr:
  assumes "destroy_view pk f = (Inr u, f')"
  shows "\<exists>i. pk = Some i \<and> i \<in> id' ` set (load_tasks f)"
  using assms by (auto simp: destroy_view_def find_task_eq Let_def split: option.splits if_splits)

lemma get_task_absent:
  assumes "i \<notin> id' ` set (load_tasks f)"
  shows "get_task i f = Inl NotFoundError"
  using assms by (simp add: get_task_def find_task_index_eq Let_def)

lemma retrieve_view_absent:
  assumes "i \<notin> id' ` set (load_tasks f)"
  shows "retrieve_view (Some i) f = Inl NotFoundError"
  using assms by (simp add: retrieve_view_def find_task_eq)

subsection \<open>The scenario\<close>

lemma scenario_1_eq:
  "scenario_1 = save_tasks [\<lparr>id' = 1, description = ''Buy milk'', status = ''todo'',
     createdAt = ''t1'', updatedAt = ''t1''\<rparr>]"
  by (simp add: scenario_1_def create_task_def TaskCreate_def load_tasks_None get_next_id_Nil Let_def)

lemma scenario_2_eq:
  "scenario_2 = save_tasks
     [\<lparr>id' = 1, description = ''Buy milk'', status = ''todo'', createdAt = ''t1'', updatedAt = ''t1''\<rparr>,
      \<lparr>id' = 2, description = ''Walk dog'', status = ''todo'', createdAt = ''t2'', updatedAt = ''t2''\<rparr>]"
  by (simp add: scenario_2_def scenario_1_eq create_task_def TaskCreate_def load_save get_next_id_def Let_def)

lemma scenario_3_eq:
  "scenario_3 = save_tasks [\<lparr>id' = 1, description = ''Buy milk'', status = ''todo'',
     createdAt = ''t1'', updatedAt = ''t1''\<rparr>]"
  by (simp add: scenario_3_def scenario_2_eq delete_task_def load_save find_task_index_def pop_def Let_def)

lemma view_scenario_1_eq: "view_scenario_1 = scenario_1"
  by (simp add: view_scenario_1_def scenario_1_eq create_view_def data_get_def strip_def isspace_def
      load_tasks_None get_next_id_Nil Let_def)

lemma view_scenario_2_eq: "view_scenario_2 = scenario_2"
  by (simp add: view_scenario_2_def view_scenario_1_eq scenario_1_eq scenario_2_eq create_view_def
      data_get_def strip_def isspace_def load_save get_next_id_def Let_def)

lemma view_scenario_3_eq: "view_scenario_3 = scenario_3"
  by (simp add: view_scenario_3_def view_scenario_2_eq scenario_2_eq scenario_3_eq destroy_view_def
      load_save find_task_def pop_def Let_def)

lemma load_scenario_1:
  "load_tasks scenario_1 =
     [\<lparr>id' = 1, description = ''Buy milk'', status = ''todo'', createdAt = ''t1'', updatedAt = ''t1''\<rparr>]"
  by (simp add: scenario_1_eq load_save)

lemma load_scenario_2:
  "load_tasks scenario_2 =
     [\<lparr>id' = 1, description = ''Buy milk'', status = ''todo'', createdAt = ''t1'', updatedAt = ''t1''\<rparr>,
      \<lparr>id' = 2, description = ''Walk dog'', status = ''todo'', createdAt = ''t2'', updatedAt = ''t2''\<rparr>]"
  by (simp add: scenario_2_eq load_save)

lemma load_scenario_3:
  "load_tasks scenario_3 =
     [\<lparr>id' = 1, description = ''Buy milk'', status = ''todo'', createdAt = ''t1'', updatedAt = ''t1''\<rparr>]"
  by (simp add: scenario_3_eq load_save)

lemma load_scenario_done:
  "load_tasks scenario_done =
     [\<lparr>id' = 1, description = ''Buy milk'', status = ''done'', createdAt = ''t1'', updatedAt = ''t3''\<rparr>,
      \<lparr>id' = 2, description = ''Walk dog'', status = ''todo'', createdAt = ''t2'', updatedAt = ''t2''\<rparr>]"
  by (simp add: scenario_done_def update_task_status_def TaskStatus_def valid_statuses_def
      load_scenario_2 find_task_index_def Let_def load_save)

subsection \<open>The writing handlers keep the ids unique\<close>

text \<open>
  Every task list the handlers save has unique ids when the list they loaded had: create
  appends a task with an id that no task has, the updates keep every id, and delete only
  removes a task. So the ids are unique in every file the handlers leave, starting from
  no file.
\<close>

lemma ids_list_update:
  assumes "id' t = id' (tasks ! k)"
  shows "map id' (tasks[k := t]) = map id' tasks"
proof (cases "k < length tasks")
  case True
  then show ?thesis using assms by (simp add: map_update list_update_same_conv)
next
  case False
  then have "length tasks \<le> k" by simp
  then show ?thesis by (simp add: list_update_beyond)
qed

lemma distinct_ids_snoc:
  assumes "distinct (map id' tasks)" and "id' t = get_next_id tasks"
  shows "distinct (map id' (tasks @ [t]))"
  using assms get_next_id_fresh [of tasks] by simp

lemma pop_Cons:
  "pop (x # xs) k = (case k of 0 \<Rightarrow> xs | Suc j \<Rightarrow> x # pop xs j)"
  by (simp add: pop_def split: nat.splits)

lemma set_pop_subset: "set (pop xs k) \<subseteq> set xs"
proof -
  have "set (take k xs) \<subseteq> set xs" by (rule set_take_subset)
  moreover have "set (drop (Suc k) xs) \<subseteq> set xs" by (rule set_drop_subset)
  ultimately show ?thesis by (simp add: pop_def)
qed

lemma distinct_ids_pop:
  assumes "distinct (map id' tasks)"
  shows "distinct (map id' (pop tasks k))"
  using assms
proof (induction tasks arbitrary: k)
  case Nil
  then show ?case by (simp add: pop_def)
next
  case (Cons t ts)
  show ?case
  proof (cases k)
    case 0
    then show ?thesis using Cons.prems by (simp add: pop_Cons)
  next
    case (Suc j)
    have "distinct (map id' (pop ts j))" using Cons by simp
    moreover have "id' t \<notin> id' ` set (pop ts j)"
      using Cons.prems set_pop_subset [of ts j] by auto
    ultimately show ?thesis using Suc by (simp add: pop_Cons)
  qed
qed

lemma create_task_keeps_ids_unique:
  assumes "distinct (map id' (load_tasks f))"
  shows "distinct (map id' (load_tasks (snd (create_task now d f))))"
  using assms
  by (cases "TaskCreate d") (simp_all add: create_task_def Let_def load_save get_next_id_fresh)

lemma create_view_keeps_ids_unique:
  assumes "distinct (map id' (load_tasks f))"
  shows "distinct (map id' (load_tasks (snd (create_view now data f))))"
proof (cases "fst (create_view now data f)")
  case (Inl e)
  then have "snd (create_view now data f) = f"
    by (cases "data_get data ''description''")
       (auto simp: create_view_def Let_def split: if_splits)
  then show ?thesis using assms by simp
next
  case (Inr t)
  then have "create_view now data f = (Inr t, snd (create_view now data f))"
    by (simp add: prod_eq_iff)
  from create_view_Inr [OF this] show ?thesis
    using assms by (simp add: load_save get_next_id_fresh)
qed

lemma update_task_status_keeps_ids:
  "map id' (load_tasks (snd (update_task_status now i s f))) = map id' (load_tasks f)"
proof (cases "s \<in> set valid_statuses \<and> i \<in> id' ` set (load_tasks f)")
  case True
  then show ?thesis
    by (simp add: update_task_status_found load_save ids_list_update)
next
  case False
  then have "snd (update_task_status now i s f) = f"
    by (auto simp: update_task_status_def TaskStatus_def find_task_index_eq Let_def)
  then show ?thesis by simp
qed

lemma update_task_keeps_ids:
  "map id' (load_tasks (snd (update_task now i d f))) = map id' (load_tasks f)"
proof (cases "1 \<le> length d \<and> length d \<le> 500 \<and> i \<in> id' ` set (load_tasks f)")
  case True
  then show ?thesis
    by (simp add: update_task_found load_save ids_list_update)
next
  case False
  then have "snd (update_task now i d f) = f"
    by (auto simp: update_task_def TaskUpdate_def find_task_index_eq Let_def)
  then show ?thesis by simp
qed

lemma status_view_keeps_ids:
  "map id' (load_tasks (snd (status_view now pk data f))) = map id' (load_tasks f)"
proof (cases "fst (status_view now pk data f)")
  case (Inl e)
  then have "snd (status_view now pk data f) = f"
    by (auto simp: status_view_def Let_def split: option.splits pyval.splits if_splits)
  then show ?thesis by simp
next
  case (Inr t)
  then have h: "status_view now pk data f = (Inr t, snd (status_view now pk data f))"
    by (simp add: prod_eq_iff)
  from status_view_Inr [OF h] obtain i s where pk: "pk = Some i"
    and d: "data_get data ''status'' = PStr s" and v: "s \<in> set valid_statuses"
    and p: "i \<in> id' ` set (load_tasks f)" by auto
  show ?thesis
    unfolding pk status_view_found [OF v p d]
    by (simp add: load_save ids_list_update)
qed

lemma update_view_keeps_ids:
  "map id' (load_tasks (snd (update_view now pk data f))) = map id' (load_tasks f)"
proof (cases "\<exists>i s. pk = Some i \<and> data_get data ''description'' = PStr s \<and> s \<noteq> [] \<and>
    i \<in> id' ` set (load_tasks f)")
  case True
  then obtain i s where pk: "pk = Some i" and d: "data_get data ''description'' = PStr s"
    and s: "s \<noteq> []" and p: "i \<in> id' ` set (load_tasks f)" by auto
  show ?thesis
    unfolding pk update_view_found [OF s p d]
    by (simp add: load_save ids_list_update)
next
  case False
  then have "snd (update_view now pk data f) = f"
    by (auto simp: update_view_def find_task_eq Let_def split: option.splits pyval.splits)
  then show ?thesis by simp
qed

lemma delete_task_keeps_ids_unique:
  assumes "distinct (map id' (load_tasks f))"
  shows "distinct (map id' (load_tasks (snd (delete_task i f))))"
  using assms by (simp add: delete_task_def Let_def load_save distinct_ids_pop)

lemma destroy_view_keeps_ids_unique:
  assumes "distinct (map id' (load_tasks f))"
  shows "distinct (map id' (load_tasks (snd (destroy_view pk f))))"
  using assms
  by (auto simp: destroy_view_def Let_def load_save distinct_ids_pop split: option.splits)

lemma reachable_ids_unique:
  assumes "reachable f"
  shows "distinct (map id' (load_tasks f))"
  using assms
proof (induction rule: reachable.induct)
  case no_file
  show ?case by (simp add: load_tasks_None)
next
  case (not_json s)
  show ?case by (simp add: load_tasks_def)
next
  case (create_task f now d)
  then show ?case by (simp add: create_task_keeps_ids_unique)
next
  case (update_task f now i d)
  then show ?case by (simp add: update_task_keeps_ids)
next
  case (update_task_status f now i s)
  then show ?case by (simp add: update_task_status_keeps_ids)
next
  case (delete_task f i)
  then show ?case by (simp add: delete_task_keeps_ids_unique)
next
  case (create_view f now data)
  then show ?case by (simp add: create_view_keeps_ids_unique)
next
  case (update_view f now pk data)
  then show ?case by (simp add: update_view_keeps_ids)
next
  case (status_view f now pk data)
  then show ?case by (simp add: status_view_keeps_ids)
next
  case (destroy_view f pk)
  then show ?case by (simp add: destroy_view_keeps_ids_unique)
qed

subsection \<open>The text of the file: what the encoder writes, the decoder reads back\<close>

text \<open>
  Strings first (every character, escaped, is scanned back as itself), then integers
  (the decimal digits of a number are scanned back as the number), then one task object,
  member by member, then the array.
\<close>

lemma hex_val_hex_digit_all: "list_all (\<lambda>k. hex_val (hex_digit k) = Some k) [0..<16]"
  by code_simp

lemma hex_val_hex_digit:
  assumes "k < 16"
  shows "hex_val (hex_digit k) = Some k"
  using hex_val_hex_digit_all assms by (simp add: list_all_iff)

lemma hex_val_0: "hex_val CHR ''0'' = Some 0"
  by (simp add: hex_val_def)

lemma of_char_lt_256: "(of_char c :: nat) < 256"
  by (cases c) simp

lemma hex4_byte: "hex4 (CHR ''0'' # CHR ''0'' # hex_digit ((of_char c :: nat) div 16) #
    hex_digit ((of_char c :: nat) mod 16) # tail) = Some (of_char c)"
proof -
  have d: "(of_char c :: nat) div 16 < 16" using of_char_lt_256 [of c] by arith
  have m: "(of_char c :: nat) mod 16 < 16" by simp
  show ?thesis
    by (simp add: hex4_def hex_val_0 hex_val_hex_digit [OF d] hex_val_hex_digit [OF m])
qed

lemma scanstring_escape:
  "scanstring (escape_char c @ tail) =
     then_scan (scanstring tail) (\<lambda>(str, rest). Scanned (c # str, rest))"
proof -
  consider (short) "c \<in> {CHR 0x22, CHR 0x5C, CHR 0x0A, CHR 0x0D, CHR 0x09, CHR 0x08, CHR 0x0C}"
    | (plain) "c \<notin> {CHR 0x22, CHR 0x5C, CHR 0x0A, CHR 0x0D, CHR 0x09, CHR 0x08, CHR 0x0C}"
        "32 \<le> (of_char c :: nat) \<and> (of_char c :: nat) \<le> 126"
    | (hex) "c \<notin> {CHR 0x22, CHR 0x5C, CHR 0x0A, CHR 0x0D, CHR 0x09, CHR 0x08, CHR 0x0C}"
        "\<not> (32 \<le> (of_char c :: nat) \<and> (of_char c :: nat) \<le> 126)"
    by blast
  then show ?thesis
  proof cases
    case short
    then show ?thesis by (auto simp: escape_char_def backslash_def)
  next
    case plain
    then show ?thesis by (simp add: escape_char_def)
  next
    case hex
    then show ?thesis
      by (simp add: escape_char_def hex4_byte of_char_lt_256)
  qed
qed

lemma scanstring_body:
  "scanstring (concat (map escape_char s) @ CHR 0x22 # rest) = Scanned (s, rest)"
  by (induction s) (simp_all add: scanstring_escape)

lemma char_of_digit_0:
  assumes "(k::nat) < 10"
  shows "(char_of (48 + k) :: char) = CHR ''0'' \<longleftrightarrow> k = 0"
proof -
  have "(char_of (48 + k) :: char) = CHR ''0'' \<longleftrightarrow>
        (of_char (char_of (48 + k) :: char) :: nat) = of_char CHR ''0''"
    by (simp only: of_char_eq_iff)
  then show ?thesis using assms by simp
qed

lemma is_digit_char_of:
  assumes "(k::nat) < 10"
  shows "is_digit (char_of (48 + k))"
  using assms by (simp add: is_digit_def)

lemma digit_val_char_of:
  assumes "(k::nat) < 10"
  shows "digit_val (char_of (48 + k)) = k"
  using assms by (simp add: digit_val_def)

lemma digits_of_digits: "\<forall>c\<in>set (digits_of n). is_digit c"
proof (induction n rule: digits_of.induct)
  case (1 n)
  show ?case
  proof (cases "n < 10")
    case True
    then show ?thesis by (simp add: digits_of.simps [of n] is_digit_char_of)
  next
    case False
    have "n mod 10 < 10" by simp
    then have "is_digit (char_of (48 + n mod 10))" by (rule is_digit_char_of)
    then show ?thesis using False 1 by (simp add: digits_of.simps [of n])
  qed
qed

lemma digits_of_not_Nil: "digits_of n \<noteq> []"
  by (simp add: digits_of.simps [of n])

lemma nat_of_digits_snoc: "nat_of_digits (ds @ [c]) = 10 * nat_of_digits ds + digit_val c"
  by (simp add: nat_of_digits_def)

lemma nat_of_digits_digits_of: "nat_of_digits (digits_of n) = n"
proof (induction n rule: digits_of.induct)
  case (1 n)
  show ?case
  proof (cases "n < 10")
    case True
    then show ?thesis
      by (simp add: digits_of.simps [of n] nat_of_digits_def digit_val_char_of)
  next
    case False
    have m: "n mod 10 < 10" by simp
    have "nat_of_digits (digits_of n) = 10 * nat_of_digits (digits_of (n div 10)) + n mod 10"
      using False by (simp add: digits_of.simps [of n] nat_of_digits_snoc digit_val_char_of [OF m])
    also have "\<dots> = 10 * (n div 10) + n mod 10" using False 1 by simp
    finally show ?thesis by simp
  qed
qed

lemma hd_digits_of: "hd (digits_of n) = CHR ''0'' \<longleftrightarrow> n = 0"
proof (induction n rule: digits_of.induct)
  case (1 n)
  show ?case
  proof (cases "n < 10")
    case True
    then show ?thesis by (simp add: digits_of.simps [of n] char_of_digit_0)
  next
    case False
    then have "hd (digits_of n) = hd (digits_of (n div 10))"
      by (simp add: digits_of.simps [of n] digits_of_not_Nil)
    then show ?thesis using False 1 by simp
  qed
qed

lemma takeWhile_digits_of:
  assumes "\<not> is_digit c"
  shows "takeWhile is_digit (digits_of n @ c # r) = digits_of n"
  using assms digits_of_digits [of n] by (simp add: takeWhile_append2)

lemma not_minus_digits: "\<not> starts ''-'' (digits_of n @ r)"
proof -
  have "is_digit (hd (digits_of n))" using digits_of_digits [of n] digits_of_not_Nil [of n]
    by (cases "digits_of n") auto
  moreover have "\<not> is_digit CHR ''-''" by (simp add: is_digit_def)
  ultimately show ?thesis
    using digits_of_not_Nil [of n] by (cases "digits_of n") (auto simp: starts_def)
qed

lemma starts_0_digits_of:
  assumes "starts ''0'' (digits_of n)"
  shows "digits_of n = ''0''"
proof -
  from assms have "hd (digits_of n) = CHR ''0''"
    using digits_of_not_Nil [of n] by (cases "digits_of n") (auto simp: starts_def)
  then have "n = 0" by (simp add: hd_digits_of)
  then show ?thesis using char_of_digit_0 [of 0] by (simp add: digits_of.simps [of 0])
qed

lemma scan_digits_of:
  "scan_number (digits_of n @ CHR '','' # r) = Scanned (JInt (int n), CHR '','' # r)"
proof -
  have nd: "\<not> is_digit CHR '',''" by (simp add: is_digit_def)
  have tw: "takeWhile is_digit (digits_of n @ CHR '','' # r) = digits_of n"
    by (rule takeWhile_digits_of [OF nd])
  have ip: "(if starts ''0'' (digits_of n) then ''0'' else digits_of n) = digits_of n"
    using starts_0_digits_of [of n] by (cases "starts ''0'' (digits_of n)") simp_all
  show ?thesis
    apply (simp only: scan_number_def Let_def not_minus_digits if_False tw ip)
    apply (simp add: digits_of_not_Nil has_frac_def has_exp_def nat_of_digits_digits_of split: list.splits)
    done
qed

lemma scan_minus_digits_of:
  "scan_number (CHR ''-'' # digits_of n @ CHR '','' # r) = Scanned (JInt (- int n), CHR '','' # r)"
proof -
  have nd: "\<not> is_digit CHR '',''" by (simp add: is_digit_def)
  have tw: "takeWhile is_digit (digits_of n @ CHR '','' # r) = digits_of n"
    by (rule takeWhile_digits_of [OF nd])
  have ip: "(if starts ''0'' (digits_of n) then ''0'' else digits_of n) = digits_of n"
    using starts_0_digits_of [of n] by (cases "starts ''0'' (digits_of n)") simp_all
  have st: "starts ''-'' (CHR ''-'' # digits_of n @ CHR '','' # r)" by (simp add: starts_def)
  show ?thesis
    apply (simp only: scan_number_def Let_def st if_True list.sel tw ip)
    apply (simp add: digits_of_not_Nil has_frac_def has_exp_def nat_of_digits_digits_of split: list.splits)
    done
qed

lemma scan_dumps_int:
  "scan_number (dumps_int i @ CHR '','' # r) = Scanned (JInt i, CHR '','' # r)"
proof (cases "i < 0")
  case True
  then show ?thesis using scan_minus_digits_of [of "nat (- i)" r] by (simp add: dumps_int_def)
next
  case False
  then show ?thesis using scan_digits_of [of "nat i" r] by (simp add: dumps_int_def)
qed

lemma hd_dumps_int: "hd (dumps_int i @ r) = CHR ''-'' \<or> is_digit (hd (dumps_int i @ r))"
proof -
  have "is_digit (hd (digits_of n))" for n
    using digits_of_digits [of n] digits_of_not_Nil [of n] by (cases "digits_of n") auto
  then show ?thesis using digits_of_not_Nil by (simp add: dumps_int_def)
qed

lemma skip_ws_newline_indent:
  assumes "\<not> is_ws c"
  shows "skip_ws (newline_indent k @ c # r) = c # r"
proof -
  have "\<forall>x\<in>set (newline_indent k). is_ws x" by (auto simp: newline_indent_def is_ws_def)
  then show ?thesis using assms by (simp add: skip_ws_def dropWhile_append3)
qed

lemma skip_ws_no_ws:
  assumes "\<not> is_ws c"
  shows "skip_ws (c # r) = c # r"
  using assms by (simp add: skip_ws_def)

lemma dumps_str_Cons: "dumps_str s @ r = CHR 0x22 # concat (map escape_char s) @ CHR 0x22 # r"
  by (simp add: dumps_str_def)

lemma scan_once_str:
  "scan_once (Suc n) d (dumps_str s @ r) = Scanned (JStr s, r)"
  by (simp add: dumps_str_Cons scanstring_body)

lemma digit_or_minus_distinct:
  assumes "c = CHR ''-'' \<or> is_digit c"
  shows "c \<noteq> CHR 0x22 \<and> c \<noteq> CHR ''{'' \<and> c \<noteq> CHR ''['' \<and> c \<noteq> CHR ''n'' \<and> c \<noteq> CHR ''t'' \<and>
         c \<noteq> CHR ''f'' \<and> \<not> is_ws c"
  using assms by (auto simp: is_digit_def is_ws_def)

lemma dumps_int_not_Nil: "dumps_int i \<noteq> []"
  by (simp add: dumps_int_def digits_of_not_Nil)

lemma scan_once_int:
  "scan_once (Suc n) d (dumps_int i @ CHR '','' # r) = Scanned (JInt i, CHR '','' # r)"
proof -
  obtain c cs where s: "dumps_int i @ CHR '','' # r = c # cs"
    using dumps_int_not_Nil [of i] by (cases "dumps_int i") auto
  have c: "c = CHR ''-'' \<or> is_digit c" using hd_dumps_int [of i "CHR '','' # r"] s by simp
  note d = digit_or_minus_distinct [OF c]
  have "scan_once (Suc n) d (c # cs) = scan_number (c # cs)"
    using c d by (simp add: starts_def)
  then show ?thesis using scan_dumps_int [of i r] s by simp
qed

lemma skip_ws_dumps_int: "skip_ws (dumps_int i @ r) = dumps_int i @ r"
proof -
  obtain c cs where s: "dumps_int i @ r = c # cs"
    using dumps_int_not_Nil [of i] by (cases "dumps_int i") auto
  have c: "c = CHR ''-'' \<or> is_digit c" using hd_dumps_int [of i r] s by simp
  show ?thesis unfolding s using digit_or_minus_distinct [OF c] by (simp add: skip_ws_no_ws)
qed

lemma skip_ws_dumps_str: "skip_ws (dumps_str s @ r) = dumps_str s @ r"
  by (simp add: dumps_str_Cons skip_ws_def is_ws_def)

lemma starts_Nil: "starts [] s"
  by (simp add: starts_def)

lemma starts_Cons: "starts (c # p) (d # s) \<longleftrightarrow> c = d \<and> starts p s"
  by (auto simp: starts_def)

lemma starts_dumps_str: "starts [CHR 0x22] (dumps_str s @ r)"
  by (simp add: dumps_str_Cons starts_def)

lemma tl_dumps_str: "tl (dumps_str s @ r) = concat (map escape_char s) @ CHR 0x22 # r"
  by (simp add: dumps_str_Cons)

lemma skip_ws_colon: "skip_ws (CHR '':'' # X) = CHR '':'' # X"
  by (simp add: skip_ws_def is_ws_def)

lemma skip_ws_space: "skip_ws (CHR '' '' # X) = skip_ws X"
  by (simp add: skip_ws_def is_ws_def)

lemma skip_ws_comma: "skip_ws (CHR '','' # X) = CHR '','' # X"
  by (simp add: skip_ws_def is_ws_def)

lemma skip_ws_indent_str: "skip_ws (newline_indent k @ dumps_str s @ X) = dumps_str s @ X"
proof -
  have q: "\<not> is_ws CHR 0x22" by (simp add: is_ws_def)
  show ?thesis using skip_ws_newline_indent [OF q] by (simp add: dumps_str_Cons)
qed

lemma skip_ws_indent_brace: "skip_ws (newline_indent k @ CHR ''}'' # X) = CHR ''}'' # X"
proof -
  have b: "\<not> is_ws CHR ''}''" by (simp add: is_ws_def)
  show ?thesis by (rule skip_ws_newline_indent [OF b])
qed

lemma scan_pairs_more:
  assumes "scan_once n d (V @ CHR '','' # newline_indent 4 @ dumps_str k' @ R) =
             Scanned (v, CHR '','' # newline_indent 4 @ dumps_str k' @ R)"
    and "skip_ws (V @ CHR '','' # newline_indent 4 @ dumps_str k' @ R) =
           V @ CHR '','' # newline_indent 4 @ dumps_str k' @ R"
  shows "scan_pairs (Suc n) d (dumps_str k @ CHR '':'' # CHR '' '' # V @ CHR '','' # newline_indent 4 @ dumps_str k' @ R) =
           then_scan (scan_pairs n d (dumps_str k' @ R)) (\<lambda>(kvs, r3). Scanned ((k, v) # kvs, r3))"
  by (simp add: starts_dumps_str tl_dumps_str scanstring_body skip_ws_colon skip_ws_space
      skip_ws_comma skip_ws_indent_str starts_Cons starts_Nil assms
      del: scan_once.simps)

lemma scan_pairs_last:
  assumes "scan_once n d (V @ newline_indent 2 @ CHR ''}'' # R) =
             Scanned (v, newline_indent 2 @ CHR ''}'' # R)"
    and "skip_ws (V @ newline_indent 2 @ CHR ''}'' # R) = V @ newline_indent 2 @ CHR ''}'' # R"
  shows "scan_pairs (Suc n) d (dumps_str k @ CHR '':'' # CHR '' '' # V @ newline_indent 2 @ CHR ''}'' # R) =
           Scanned ([(k, v)], R)"
  by (simp add: starts_dumps_str tl_dumps_str scanstring_body skip_ws_colon skip_ws_space
      skip_ws_indent_brace starts_Cons starts_Nil assms
      del: scan_once.simps)

lemma dict_of_task:
  "dict_of [(''id'', a), (''description'', b), (''status'', c), (''createdAt'', d), (''updatedAt'', e)] =
     [(''id'', a), (''description'', b), (''status'', c), (''createdAt'', d), (''updatedAt'', e)]"
  by (simp add: dict_of_def)

lemma scan_once_task:
  "scan_once (Suc (Suc (Suc (Suc (Suc (Suc (Suc n))))))) (Suc d) (dumps_task t @ R) = Scanned (json_of_task t, R)"
proof -
  let ?m5 = "dumps_str ''updatedAt'' @ CHR '':'' # CHR '' '' # dumps_str (updatedAt t) @
      newline_indent 2 @ CHR ''}'' # R"
  let ?m4 = "dumps_str ''createdAt'' @ CHR '':'' # CHR '' '' # dumps_str (createdAt t) @ CHR '','' #
      newline_indent 4 @ ?m5"
  let ?m3 = "dumps_str ''status'' @ CHR '':'' # CHR '' '' # dumps_str (status t) @ CHR '','' #
      newline_indent 4 @ ?m4"
  let ?m2 = "dumps_str ''description'' @ CHR '':'' # CHR '' '' # dumps_str (description t) @ CHR '','' #
      newline_indent 4 @ ?m3"
  let ?m1 = "dumps_str ''id'' @ CHR '':'' # CHR '' '' # dumps_int (id' t) @ CHR '','' #
      newline_indent 4 @ ?m2"
  have p5: "scan_pairs (Suc (Suc n)) d ?m5 = Scanned ([(''updatedAt'', JStr (updatedAt t))], R)"
    by (rule scan_pairs_last) (simp_all only: scan_once_str skip_ws_dumps_str)
  have p4: "scan_pairs (Suc (Suc (Suc n))) d ?m4 =
      Scanned ([(''createdAt'', JStr (createdAt t)), (''updatedAt'', JStr (updatedAt t))], R)"
    by (subst scan_pairs_more [where v = "JStr (createdAt t)"])
       (simp_all only: scan_once_str skip_ws_dumps_str p5 then_scan.simps prod.case)
  have p3: "scan_pairs (Suc (Suc (Suc (Suc n)))) d ?m3 =
      Scanned ([(''status'', JStr (status t)), (''createdAt'', JStr (createdAt t)),
                (''updatedAt'', JStr (updatedAt t))], R)"
    by (subst scan_pairs_more [where v = "JStr (status t)"])
       (simp_all only: scan_once_str skip_ws_dumps_str p4 then_scan.simps prod.case)
  have p2: "scan_pairs (Suc (Suc (Suc (Suc (Suc n))))) d ?m2 =
      Scanned ([(''description'', JStr (description t)), (''status'', JStr (status t)),
                (''createdAt'', JStr (createdAt t)), (''updatedAt'', JStr (updatedAt t))], R)"
    by (subst scan_pairs_more [where v = "JStr (description t)"])
       (simp_all only: scan_once_str skip_ws_dumps_str p3 then_scan.simps prod.case)
  have p1: "scan_pairs (Suc (Suc (Suc (Suc (Suc (Suc n)))))) d ?m1 =
      Scanned ([(''id'', JInt (id' t)), (''description'', JStr (description t)),
                (''status'', JStr (status t)),
                (''createdAt'', JStr (createdAt t)), (''updatedAt'', JStr (updatedAt t))], R)"
    by (subst scan_pairs_more [where v = "JInt (id' t)"])
       (simp_all only: scan_once_int skip_ws_dumps_int p2 then_scan.simps prod.case)
  have shape: "dumps_task t @ R = CHR ''{'' # newline_indent 4 @ ?m1"
    by (simp add: dumps_task_def)
  have nb: "\<not> starts ''}'' ?m1" by (simp add: dumps_str_Cons starts_Cons)
  have "scan_once (Suc (Suc (Suc (Suc (Suc (Suc (Suc n))))))) (Suc d) (CHR ''{'' # newline_indent 4 @ ?m1) =
        then_scan (scan_pairs (Suc (Suc (Suc (Suc (Suc (Suc n)))))) d ?m1)
          (\<lambda>(kvs, r). Scanned (JObj (dict_of kvs), r))"
    apply (subst scan_once.simps)
    apply (simp only: list.sel skip_ws_indent_str nb if_False)
    apply simp
    done
  then show ?thesis
    by (simp only: shape p1 then_scan.simps prod.case dict_of_task json_of_task_def)
qed

lemma scan_once_task_fuel:
  assumes "7 \<le> k"
  shows "scan_once k (Suc d) (dumps_task t @ R) = Scanned (json_of_task t, R)"
proof -
  have "k = Suc (Suc (Suc (Suc (Suc (Suc (Suc (k - 7)))))))" using assms by simp
  then show ?thesis using scan_once_task [of "k - 7" d t R] by simp
qed

lemma skip_ws_indent_bracket: "skip_ws (newline_indent k @ CHR '']'' # X) = CHR '']'' # X"
proof -
  have b: "\<not> is_ws CHR '']''" by (simp add: is_ws_def)
  show ?thesis by (rule skip_ws_newline_indent [OF b])
qed

lemma dumps_task_Cons: "dumps_task t @ R = CHR ''{'' # tl (dumps_task t) @ R"
  by (simp add: dumps_task_def)

lemma dumps_items_Cons:
  assumes "tasks \<noteq> []"
  shows "dumps_items tasks @ R = CHR ''{'' # tl (dumps_items tasks) @ R"
proof (cases tasks)
  case Nil
  then show ?thesis using assms by simp
next
  case (Cons t ts)
  then show ?thesis by (cases ts) (simp_all add: dumps_task_def)
qed

lemma skip_ws_indent_items:
  assumes "tasks \<noteq> []"
  shows "skip_ws (newline_indent k @ dumps_items tasks @ X) = dumps_items tasks @ X"
proof -
  have b: "\<not> is_ws CHR ''{''" by (simp add: is_ws_def)
  show ?thesis
    using skip_ws_newline_indent [OF b, of k "tl (dumps_items tasks) @ X"]
    by (simp add: dumps_items_Cons [OF assms, symmetric])
qed

lemma scan_items_tasks:
  assumes "tasks \<noteq> []" and "length tasks + 7 \<le> k"
  shows "scan_items (Suc k) (Suc d) (dumps_items tasks @ newline_indent 0 @ CHR '']'' # R) =
           Scanned (map json_of_task tasks, R)"
  using assms
proof (induction tasks arbitrary: k rule: dumps_items.induct)
  case 1
  then show ?case by simp
next
  case (2 t)
  have a: "scan_once k (Suc d) (dumps_task t @ newline_indent 0 @ CHR '']'' # R) =
          Scanned (json_of_task t, newline_indent 0 @ CHR '']'' # R)"
    using 2 by (intro scan_once_task_fuel) simp
  have "scan_items (Suc k) (Suc d) (dumps_task t @ newline_indent 0 @ CHR '']'' # R) =
          Scanned ([json_of_task t], R)"
    apply (subst scan_items.simps)
    apply (simp only: a then_scan.simps prod.case skip_ws_indent_bracket starts_Cons starts_Nil list.sel)
    apply simp
    done
  then show ?case by simp
next
  case (3 t t' ts)
  let ?rest = "dumps_items (t' # ts) @ newline_indent 0 @ CHR '']'' # R"
  from 3 obtain k' where k: "k = Suc k'" and k': "length (t' # ts) + 7 \<le> k'"
    by (cases k) auto
  have a: "scan_once k (Suc d) (dumps_task t @ CHR '','' # newline_indent 2 @ ?rest) =
          Scanned (json_of_task t, CHR '','' # newline_indent 2 @ ?rest)"
    using 3 by (intro scan_once_task_fuel) simp
  have b: "scan_items k (Suc d) ?rest = Scanned (map json_of_task (t' # ts), R)"
    unfolding k using 3(1) k' by simp
  have w: "skip_ws (newline_indent 2 @ ?rest) = ?rest"
    by (rule skip_ws_indent_items) simp
  have "scan_items (Suc k) (Suc d) (dumps_task t @ CHR '','' # newline_indent 2 @ ?rest) =
        Scanned (map json_of_task (t # t' # ts), R)"
    apply (subst scan_items.simps)
    apply (simp only: a then_scan.simps prod.case skip_ws_comma starts_Cons starts_Nil list.sel w b)
    apply simp
    done
  then show ?case by simp
qed

lemma length_dumps_task: "8 \<le> length (dumps_task t)"
  by (simp add: dumps_task_def dumps_str_def)

lemma length_dumps_items: "8 * length tasks \<le> length (dumps_items tasks)"
proof (induction tasks rule: dumps_items.induct)
  case 1
  then show ?case by simp
next
  case (2 t)
  then show ?case using length_dumps_task [of t] by simp
next
  case (3 t t' ts)
  then show ?case using length_dumps_task [of t] by simp
qed

lemma scan_once_empty_array:
  "scan_once (Suc n) (Suc d) (CHR ''['' # CHR '']'' # r) = Scanned (JArr [], r)"
  by (subst scan_once.simps)
     (simp add: starts_Cons starts_Nil skip_ws_def is_ws_def del: scan_once.simps)

lemma scan_once_not_json: "scan_once (Suc n) d ''not json'' = Rejected"
  by (subst scan_once.simps) (simp add: starts_Cons starts_Nil is_digit_def del: scan_once.simps)

lemma skip_ws_not_json: "skip_ws ''not json'' = ''not json''"
  by (simp add: skip_ws_def is_ws_def)

lemma json_loads_not_json: "json_loads d ''not json'' = Rejected"
  unfolding json_loads_def skip_ws_not_json scan_once_not_json by simp

lemma json_loads_json_dumps:
  "json_loads (Suc (Suc d)) (json_dumps tasks) = Scanned (JArr (map json_of_task tasks))"
proof (cases "tasks = []")
  case True
  have w: "skip_ws ''[]'' = ''[]''" by (simp add: skip_ws_def is_ws_def)
  have "json_loads (Suc (Suc d)) ''[]'' = Scanned (JArr [])"
    unfolding json_loads_def w scan_once_empty_array by (simp add: skip_ws_def)
  then show ?thesis using True by (simp add: json_dumps_def)
next
  case False
  let ?body = "dumps_items tasks @ newline_indent 0 @ CHR '']'' # []"
  let ?text = "CHR ''['' # newline_indent 2 @ ?body"
  have shape: "json_dumps tasks = ?text" using False by (simp add: json_dumps_def)
  have len: "length tasks + 8 \<le> length ?text"
    using length_dumps_items [of tasks] False by (cases tasks) (simp_all add: newline_indent_def)
  then obtain k where k: "2 * length ?text = Suc k" and fuel: "length tasks + 7 \<le> k"
    by (cases "2 * length ?text") auto
  have w0: "skip_ws ?text = ?text" by (simp add: skip_ws_def is_ws_def)
  have w: "skip_ws (newline_indent 2 @ ?body) = ?body"
    by (rule skip_ws_indent_items [OF False])
  have nb: "\<not> starts '']'' ?body"
    by (subst dumps_items_Cons [OF False]) (simp add: starts_Cons)
  have items: "scan_items (2 * length ?text) (Suc d) ?body = Scanned (map json_of_task tasks, [])"
    unfolding k by (rule scan_items_tasks [OF False fuel])
  have "scan_once (Suc (2 * length ?text)) (Suc (Suc d)) ?text =
          then_scan (scan_items (2 * length ?text) (Suc d) ?body) (\<lambda>(vs, r). Scanned (JArr vs, r))"
    apply (subst scan_once.simps)
    apply (simp only: list.sel w nb if_False)
    apply simp
    done
  then have "scan_once (Suc (2 * length ?text)) (Suc (Suc d)) ?text = Scanned (JArr (map json_of_task tasks), [])"
    by (simp only: items then_scan.simps prod.case)
  then show ?thesis
    unfolding json_loads_def shape w0 by (simp add: skip_ws_def)
qed

lemma task_of_json_of_task: "task_of_json (json_of_task t) = Some t"
  by (simp add: task_of_json_def json_of_task_def)

lemma tasks_of_json_of_tasks: "tasks_of_json (JArr (map json_of_task tasks)) = Some tasks"
  by (simp add: tasks_of_json_def task_of_json_of_task list_all_iff map_idI)

lemma decode_text_json_dumps: "decode_text (json_dumps tasks) = Some (TaskArray tasks)"
proof -
  have "json_loads 2 (json_dumps tasks) = Scanned (JArr (map json_of_task tasks))"
    using json_loads_json_dumps [of 0 tasks] by (simp add: numeral_2_eq_2)
  then show ?thesis by (simp add: decode_text_def tasks_of_json_of_tasks)
qed

lemma decode_text_not_json: "decode_text ''not json'' = Some (NotJson ''not json'')"
  by (simp add: decode_text_def json_loads_not_json)

subsection \<open>The decoder on every text\<close>

text \<open>
  A value that is scanned takes at least one character of the text, so the fuel that
  \<open>json_loads\<close> gives is never used up: the decoder answers on every text. A text that
  opens more arrays than there are levels of recursion left stops the decoder with
  \<open>RecursionError\<close>, whatever follows the brackets; with levels enough, brackets that are
  never closed are rejected. Last, the list that \<open>load_tasks\<close> gives on the content of a
  text is the one that \<open>load_tasks_text\<close> gives on the text.
\<close>

lemma then_scan_Scanned:
  "then_scan x f = Scanned y \<longleftrightarrow> (\<exists>a. x = Scanned a \<and> f a = Scanned y)"
  by (cases x) simp_all

lemma then_scan_OutOfFuel:
  "then_scan x f = OutOfFuel \<longleftrightarrow> x = OutOfFuel \<or> (\<exists>a. x = Scanned a \<and> f a = OutOfFuel)"
  by (cases x) simp_all

lemma length_skip_ws: "length (skip_ws s) \<le> length s"
  by (simp add: skip_ws_def length_dropWhile_le)

lemma starts_length: "starts p s \<Longrightarrow> length p \<le> length s"
  unfolding starts_def by (metis length_take min.cobounded1)

lemma scanstring_fuel: "scanstring s \<noteq> OutOfFuel"
  by (induction s rule: scanstring.induct)
     (auto simp: then_scan_OutOfFuel split: list.splits option.splits if_splits)

lemma hex4_length: "hex4 s = Some n \<Longrightarrow> 4 \<le> length s"
  by (auto simp: hex4_def split: list.splits)

lemma scanstring_shorter: "scanstring s = Scanned (x, r) \<Longrightarrow> length r < length s"
proof (induction s arbitrary: x r rule: scanstring.induct)
  case 1
  then show ?case by simp
next
  case (2 c t)
  show ?case
  proof (cases "c = CHR 0x22")
    case True
    then show ?thesis using "2.prems" by simp
  next
    case nq: False
    show ?thesis
    proof (cases "c = CHR 0x5C")
      case True
      then obtain e t' where t: "t = e # t'" using "2.prems" nq by (cases t) auto
      show ?thesis
      proof (cases "e = CHR ''u''")
        case u: True
        then obtain n where h: "hex4 t' = Some n" and n: "n < 256"
          using "2.prems" nq True t by (auto split: option.splits if_splits)
        then obtain str where "scanstring (drop 4 t') = Scanned (str, r)"
          using "2.prems" nq True t u by (auto simp: then_scan_Scanned)
        then have "length r < length (drop 4 t')"
          using "2.IH"(1) [OF nq True t u h n] by simp
        then show ?thesis using t by simp
      next
        case nu: False
        then obtain y where b: "backslash e = Some y"
          using "2.prems" nq True t by (auto split: option.splits)
        then obtain str where "scanstring t' = Scanned (str, r)"
          using "2.prems" nq True t nu by (auto simp: then_scan_Scanned)
        then have "length r < length t'"
          using "2.IH"(2) [OF nq True t nu b] by simp
        then show ?thesis using t by simp
      qed
    next
      case nb: False
      then have c: "\<not> (of_char c :: nat) < 32" using "2.prems" nq by (auto split: if_splits)
      then obtain str where "scanstring t = Scanned (str, r)"
        using "2.prems" nq nb by (auto simp: then_scan_Scanned)
      then have "length r < length t" using "2.IH"(3) [OF nq nb c] by simp
      then show ?thesis by simp
    qed
  qed
qed

lemma scan_number_fuel: "scan_number s \<noteq> OutOfFuel"
  by (simp add: scan_number_def Let_def)

lemma scan_number_shorter:
  assumes "scan_number s = Scanned (v, r)"
  shows "length r < length s"
proof -
  define s1 where "s1 = (if starts ''-'' s then tl s else s)"
  define ds where "ds = takeWhile is_digit s1"
  define ip where "ip = (if starts ''0'' ds then ''0'' else ds)"
  have ne: "ip \<noteq> []" and r: "r = drop (length ip) s1"
    using assms unfolding scan_number_def Let_def s1_def [symmetric] ds_def [symmetric] ip_def [symmetric]
    by (auto split: if_splits)
  have "length ds \<le> length s1" unfolding ds_def by (rule length_takeWhile_le)
  moreover have "length ip \<le> length ds"
    unfolding ip_def using starts_length [of "''0''" ds] by auto
  moreover have "length s1 \<le> length s" unfolding s1_def by simp
  ultimately show ?thesis using ne r by (cases ip) auto
qed

lemma starts_tl: "starts [x] u \<Longrightarrow> length (tl u) < length u"
  by (cases u) (simp_all add: starts_def)

lemma starts_tl_skip_ws: "starts [x] (skip_ws u) \<Longrightarrow> length (tl (skip_ws u)) < length u"
  using starts_tl [of x "skip_ws u"] length_skip_ws [of u] by simp

lemma starts_drop: "starts p s \<Longrightarrow> p \<noteq> [] \<Longrightarrow> length (drop (length p) s) < length s"
  using starts_length [of p s] by (cases p) auto

lemma scan_once_shorter_step:
  assumes items: "\<And>d s vs r. scan_items n d s = Scanned (vs, r) \<Longrightarrow> length r < length s"
    and pairs: "\<And>d s kvs r. scan_pairs n d s = Scanned (kvs, r) \<Longrightarrow> length r < length s"
    and h: "scan_once (Suc n) d s = Scanned (v, r)"
  shows "length r < length s"
proof -
  obtain c t where s: "s = c # t" using h by (cases s) auto
  consider (str) "c = CHR 0x22" | (obj) "c = CHR ''{''" | (arr) "c = CHR ''[''"
    | (other) "c \<noteq> CHR 0x22" "c \<noteq> CHR ''{''" "c \<noteq> CHR ''[''" by blast
  then show ?thesis
  proof cases
    case str
    then obtain x where "scanstring t = Scanned (x, r)"
      using h s by (auto simp: then_scan_Scanned)
    from scanstring_shorter [OF this] show ?thesis using s by simp
  next
    case obj
    then have h': "(if d = 0 then RecursionError
         else if starts ''}'' (skip_ws t) then Scanned (JObj [], tl (skip_ws t))
         else then_scan (scan_pairs n (d - 1) (skip_ws t))
                (\<lambda>(kvs, r). Scanned (JObj (dict_of kvs), r))) = Scanned (v, r)"
      using h s by (simp split: if_splits)
    show ?thesis
    proof (cases "starts ''}'' (skip_ws t)")
      case True
      then have "r = tl (skip_ws t)" using h' by (simp split: if_splits)
      then show ?thesis using starts_tl_skip_ws [OF True] s by simp
    next
      case False
      then obtain kvs where "scan_pairs n (d - 1) (skip_ws t) = Scanned (kvs, r)"
        using h' by (auto simp: then_scan_Scanned split: if_splits)
      from pairs [OF this] show ?thesis using length_skip_ws [of t] s by simp
    qed
  next
    case arr
    then have h': "(if d = 0 then RecursionError
         else if starts '']'' (skip_ws t) then Scanned (JArr [], tl (skip_ws t))
         else then_scan (scan_items n (d - 1) (skip_ws t)) (\<lambda>(vs, r). Scanned (JArr vs, r)))
         = Scanned (v, r)"
      using h s by (simp split: if_splits)
    show ?thesis
    proof (cases "starts '']'' (skip_ws t)")
      case True
      then have "r = tl (skip_ws t)" using h' by (simp split: if_splits)
      then show ?thesis using starts_tl_skip_ws [OF True] s by simp
    next
      case False
      then obtain vs where "scan_items n (d - 1) (skip_ws t) = Scanned (vs, r)"
        using h' by (auto simp: then_scan_Scanned split: if_splits)
      from items [OF this] show ?thesis using length_skip_ws [of t] s by simp
    qed
  next
    case other
    with h s consider "starts ''null'' s" "r = drop 4 s"
      | "starts ''true'' s" "r = drop 4 s"
      | "starts ''false'' s" "r = drop 5 s"
      | "scan_number s = Scanned (v, r)"
      by (auto split: if_splits)
    then show ?thesis
    proof cases
      case 1
      then show ?thesis using starts_length [of "''null''" s] by simp
    next
      case 2
      then show ?thesis using starts_length [of "''true''" s] by simp
    next
      case 3
      then show ?thesis using starts_length [of "''false''" s] by simp
    next
      case 4
      then show ?thesis by (rule scan_number_shorter)
    qed
  qed
qed

lemma scan_items_shorter_step:
  assumes once: "\<And>d s v r. scan_once n d s = Scanned (v, r) \<Longrightarrow> length r < length s"
    and items: "\<And>d s vs r. scan_items n d s = Scanned (vs, r) \<Longrightarrow> length r < length s"
    and h: "scan_items (Suc n) d s = Scanned (vs, r)"
  shows "length r < length s"
proof -
  from h obtain v r1 where o: "scan_once n d s = Scanned (v, r1)"
    and b: "(if starts '']'' (skip_ws r1) then Scanned ([v], tl (skip_ws r1))
       else if starts '','' (skip_ws r1) then
         then_scan (scan_items n d (skip_ws (tl (skip_ws r1)))) (\<lambda>(vs, r'). Scanned (v # vs, r'))
       else Rejected) = Scanned (vs, r)"
    by (auto simp: then_scan_Scanned)
  have l1: "length r1 < length s" by (rule once [OF o])
  show ?thesis
  proof (cases "starts '']'' (skip_ws r1)")
    case True
    then have "r = tl (skip_ws r1)" using b by simp
    then show ?thesis using starts_tl_skip_ws [OF True] l1 by simp
  next
    case False
    then have c: "starts '','' (skip_ws r1)" using b by (simp split: if_splits)
    then obtain vs' where "scan_items n d (skip_ws (tl (skip_ws r1))) = Scanned (vs', r)"
      using b False by (auto simp: then_scan_Scanned)
    from items [OF this] have "length r < length (skip_ws (tl (skip_ws r1)))" .
    then show ?thesis
      using length_skip_ws [of "tl (skip_ws r1)"] starts_tl_skip_ws [OF c] l1 by simp
  qed
qed

lemma scan_pairs_shorter_step:
  assumes once: "\<And>d s v r. scan_once n d s = Scanned (v, r) \<Longrightarrow> length r < length s"
    and pairs: "\<And>d s kvs r. scan_pairs n d s = Scanned (kvs, r) \<Longrightarrow> length r < length s"
    and h: "scan_pairs (Suc n) d s = Scanned (kvs, r)"
  shows "length r < length s"
proof -
  from h have q: "starts [CHR 0x22] s" by (simp split: if_splits)
  with h obtain k r1 where k: "scanstring (tl s) = Scanned (k, r1)"
    and b1: "(if \<not> starts '':'' (skip_ws r1) then Rejected
        else then_scan (scan_once n d (skip_ws (tl (skip_ws r1)))) (\<lambda>(v, r2).
          if starts ''}'' (skip_ws r2) then Scanned ([(k, v)], tl (skip_ws r2))
          else if starts '','' (skip_ws r2) then
            then_scan (scan_pairs n d (skip_ws (tl (skip_ws r2))))
              (\<lambda>(kvs, r3). Scanned ((k, v) # kvs, r3))
          else Rejected)) = Scanned (kvs, r)"
    by (auto simp: then_scan_Scanned)
  have l1: "length r1 < length s"
    using scanstring_shorter [OF k] by (cases s) simp_all
  from b1 have c: "starts '':'' (skip_ws r1)" by (simp split: if_splits)
  with b1 obtain v r2 where o: "scan_once n d (skip_ws (tl (skip_ws r1))) = Scanned (v, r2)"
    and b2: "(if starts ''}'' (skip_ws r2) then Scanned ([(k, v)], tl (skip_ws r2))
          else if starts '','' (skip_ws r2) then
            then_scan (scan_pairs n d (skip_ws (tl (skip_ws r2))))
              (\<lambda>(kvs, r3). Scanned ((k, v) # kvs, r3))
          else Rejected) = Scanned (kvs, r)"
    by (auto simp: then_scan_Scanned)
  have l2: "length r2 < length s"
    using once [OF o] length_skip_ws [of "tl (skip_ws r1)"] starts_tl_skip_ws [OF c] l1 by simp
  show ?thesis
  proof (cases "starts ''}'' (skip_ws r2)")
    case True
    then have "r = tl (skip_ws r2)" using b2 by simp
    then show ?thesis using starts_tl_skip_ws [OF True] l2 by simp
  next
    case False
    then have c2: "starts '','' (skip_ws r2)" using b2 by (simp split: if_splits)
    then obtain kvs' where "scan_pairs n d (skip_ws (tl (skip_ws r2))) = Scanned (kvs', r)"
      using b2 False by (auto simp: then_scan_Scanned)
    from pairs [OF this] have "length r < length (skip_ws (tl (skip_ws r2)))" .
    then show ?thesis
      using length_skip_ws [of "tl (skip_ws r2)"] starts_tl_skip_ws [OF c2] l2 by simp
  qed
qed

lemma scan_shorter:
  "(\<forall>d s v r. scan_once n d s = Scanned (v, r) \<longrightarrow> length r < length s) \<and>
   (\<forall>d s vs r. scan_items n d s = Scanned (vs, r) \<longrightarrow> length r < length s) \<and>
   (\<forall>d s kvs r. scan_pairs n d s = Scanned (kvs, r) \<longrightarrow> length r < length s)"
proof (induction n)
  case 0
  show ?case by simp
next
  case (Suc n)
  then have once: "\<And>d s v r. scan_once n d s = Scanned (v, r) \<Longrightarrow> length r < length s"
    and items: "\<And>d s vs r. scan_items n d s = Scanned (vs, r) \<Longrightarrow> length r < length s"
    and pairs: "\<And>d s kvs r. scan_pairs n d s = Scanned (kvs, r) \<Longrightarrow> length r < length s"
    by blast+
  have a: "length r < length s" if "scan_once (Suc n) d s = Scanned (v, r)" for d s v r
  proof (rule scan_once_shorter_step)
    show "scan_once (Suc n) d s = Scanned (v, r)" by (fact that)
  qed (blast intro: items pairs)+
  have b: "length r < length s" if "scan_items (Suc n) d s = Scanned (vs, r)" for d s vs r
  proof (rule scan_items_shorter_step)
    show "scan_items (Suc n) d s = Scanned (vs, r)" by (fact that)
  qed (blast intro: once items)+
  have c: "length r < length s" if "scan_pairs (Suc n) d s = Scanned (kvs, r)" for d s kvs r
  proof (rule scan_pairs_shorter_step)
    show "scan_pairs (Suc n) d s = Scanned (kvs, r)" by (fact that)
  qed (blast intro: once pairs)+
  show ?case using a b c by blast
qed

lemma scan_once_shorter: "scan_once n d s = Scanned (v, r) \<Longrightarrow> length r < length s"
  using scan_shorter by blast

lemma scan_items_shorter: "scan_items n d s = Scanned (vs, r) \<Longrightarrow> length r < length s"
  using scan_shorter by blast

lemma scan_pairs_shorter: "scan_pairs n d s = Scanned (kvs, r) \<Longrightarrow> length r < length s"
  using scan_shorter by blast

lemma scan_once_fuel_step:
  assumes items: "\<And>d s. 2 * length s + 1 < n \<Longrightarrow> scan_items n d s \<noteq> OutOfFuel"
    and pairs: "\<And>d s. 2 * length s + 1 < n \<Longrightarrow> scan_pairs n d s \<noteq> OutOfFuel"
    and len: "2 * length s < Suc n"
  shows "scan_once (Suc n) d s \<noteq> OutOfFuel"
proof (cases s)
  case Nil
  then show ?thesis by simp
next
  case (Cons c t)
  have l: "2 * length (skip_ws t) + 1 < n"
    using len length_skip_ws [of t] Cons by simp
  consider (str) "c = CHR 0x22" | (obj) "c = CHR ''{''" | (arr) "c = CHR ''[''"
    | (other) "c \<noteq> CHR 0x22" "c \<noteq> CHR ''{''" "c \<noteq> CHR ''[''" by blast
  then show ?thesis
  proof cases
    case str
    then show ?thesis using Cons by (simp add: then_scan_OutOfFuel scanstring_fuel)
  next
    case obj
    then show ?thesis using Cons pairs [OF l] by (simp add: then_scan_OutOfFuel)
  next
    case arr
    then show ?thesis using Cons items [OF l] by (simp add: then_scan_OutOfFuel)
  next
    case other
    then show ?thesis using Cons by (simp add: scan_number_fuel)
  qed
qed

lemma scan_items_fuel_step:
  assumes once: "\<And>d s. 2 * length s < n \<Longrightarrow> scan_once n d s \<noteq> OutOfFuel"
    and items: "\<And>d s. 2 * length s + 1 < n \<Longrightarrow> scan_items n d s \<noteq> OutOfFuel"
    and len: "2 * length s + 1 < Suc n"
  shows "scan_items (Suc n) d s \<noteq> OutOfFuel"
proof
  assume "scan_items (Suc n) d s = OutOfFuel"
  moreover have "scan_once n d s \<noteq> OutOfFuel" using once len by simp
  ultimately obtain v r1 where o: "scan_once n d s = Scanned (v, r1)"
    and b: "(if starts '']'' (skip_ws r1) then Scanned ([v], tl (skip_ws r1))
       else if starts '','' (skip_ws r1) then
         then_scan (scan_items n d (skip_ws (tl (skip_ws r1)))) (\<lambda>(vs, r'). Scanned (v # vs, r'))
       else Rejected) = OutOfFuel"
    by (auto simp: then_scan_OutOfFuel)
  have l1: "length r1 < length s" by (rule scan_once_shorter [OF o])
  from b have c: "starts '','' (skip_ws r1)" by (simp split: if_splits)
  with b have "scan_items n d (skip_ws (tl (skip_ws r1))) = OutOfFuel"
    by (auto simp: then_scan_OutOfFuel split: if_splits)
  moreover have "2 * length (skip_ws (tl (skip_ws r1))) + 1 < n"
    using length_skip_ws [of "tl (skip_ws r1)"] starts_tl_skip_ws [OF c] l1 len by simp
  ultimately show False using items by blast
qed

lemma scan_pairs_fuel_step:
  assumes once: "\<And>d s. 2 * length s < n \<Longrightarrow> scan_once n d s \<noteq> OutOfFuel"
    and pairs: "\<And>d s. 2 * length s + 1 < n \<Longrightarrow> scan_pairs n d s \<noteq> OutOfFuel"
    and len: "2 * length s + 1 < Suc n"
  shows "scan_pairs (Suc n) d s \<noteq> OutOfFuel"
proof
  assume h: "scan_pairs (Suc n) d s = OutOfFuel"
  then have q: "starts [CHR 0x22] s" by (simp split: if_splits)
  with h obtain k r1 where k: "scanstring (tl s) = Scanned (k, r1)"
    and b1: "(if \<not> starts '':'' (skip_ws r1) then Rejected
        else then_scan (scan_once n d (skip_ws (tl (skip_ws r1)))) (\<lambda>(v, r2).
          if starts ''}'' (skip_ws r2) then Scanned ([(k, v)], tl (skip_ws r2))
          else if starts '','' (skip_ws r2) then
            then_scan (scan_pairs n d (skip_ws (tl (skip_ws r2))))
              (\<lambda>(kvs, r3). Scanned ((k, v) # kvs, r3))
          else Rejected)) = OutOfFuel"
    by (auto simp: then_scan_OutOfFuel scanstring_fuel)
  have l1: "length r1 < length s"
    using scanstring_shorter [OF k] by (cases s) simp_all
  from b1 have c: "starts '':'' (skip_ws r1)" by (simp split: if_splits)
  have l1': "length (skip_ws (tl (skip_ws r1))) < length s"
    using length_skip_ws [of "tl (skip_ws r1)"] starts_tl_skip_ws [OF c] l1 by simp
  then have "scan_once n d (skip_ws (tl (skip_ws r1))) \<noteq> OutOfFuel"
    using once len by simp
  with b1 c obtain v r2 where o: "scan_once n d (skip_ws (tl (skip_ws r1))) = Scanned (v, r2)"
    and b2: "(if starts ''}'' (skip_ws r2) then Scanned ([(k, v)], tl (skip_ws r2))
          else if starts '','' (skip_ws r2) then
            then_scan (scan_pairs n d (skip_ws (tl (skip_ws r2))))
              (\<lambda>(kvs, r3). Scanned ((k, v) # kvs, r3))
          else Rejected) = OutOfFuel"
    by (auto simp: then_scan_OutOfFuel)
  have l2: "length r2 < length s" using scan_once_shorter [OF o] l1' by simp
  from b2 have c2: "starts '','' (skip_ws r2)" by (simp split: if_splits)
  with b2 have "scan_pairs n d (skip_ws (tl (skip_ws r2))) = OutOfFuel"
    by (auto simp: then_scan_OutOfFuel split: if_splits)
  moreover have "2 * length (skip_ws (tl (skip_ws r2))) + 1 < n"
    using length_skip_ws [of "tl (skip_ws r2)"] starts_tl_skip_ws [OF c2] l2 len by simp
  ultimately show False using pairs by blast
qed

lemma scan_fuel:
  "(\<forall>d s. 2 * length s < n \<longrightarrow> scan_once n d s \<noteq> OutOfFuel) \<and>
   (\<forall>d s. 2 * length s + 1 < n \<longrightarrow> scan_items n d s \<noteq> OutOfFuel) \<and>
   (\<forall>d s. 2 * length s + 1 < n \<longrightarrow> scan_pairs n d s \<noteq> OutOfFuel)"
proof (induction n)
  case 0
  show ?case by simp
next
  case (Suc n)
  then have once: "\<And>d s. 2 * length s < n \<Longrightarrow> scan_once n d s \<noteq> OutOfFuel"
    and items: "\<And>d s. 2 * length s + 1 < n \<Longrightarrow> scan_items n d s \<noteq> OutOfFuel"
    and pairs: "\<And>d s. 2 * length s + 1 < n \<Longrightarrow> scan_pairs n d s \<noteq> OutOfFuel"
    by blast+
  have a: "scan_once (Suc n) d s \<noteq> OutOfFuel" if "2 * length s < Suc n" for d s
  proof (rule scan_once_fuel_step)
    show "2 * length s < Suc n" by (fact that)
  qed (rule items pairs, assumption)+
  have b: "scan_items (Suc n) d s \<noteq> OutOfFuel" if "2 * length s + 1 < Suc n" for d s
  proof (rule scan_items_fuel_step)
    show "2 * length s + 1 < Suc n" by (fact that)
  qed (rule once items, assumption)+
  have c: "scan_pairs (Suc n) d s \<noteq> OutOfFuel" if "2 * length s + 1 < Suc n" for d s
  proof (rule scan_pairs_fuel_step)
    show "2 * length s + 1 < Suc n" by (fact that)
  qed (rule once pairs, assumption)+
  show ?case using a b c by blast
qed

lemma json_loads_fuel: "json_loads d s \<noteq> OutOfFuel"
proof -
  have "2 * length (skip_ws s) < Suc (2 * length s)"
    using length_skip_ws [of s] by simp
  then have "scan_once (Suc (2 * length s)) d (skip_ws s) \<noteq> OutOfFuel"
    using scan_fuel by blast
  then show ?thesis
    unfolding json_loads_def by (auto simp: then_scan_OutOfFuel simp del: scan_once.simps)
qed

lemma scan_once_nested:
  "d < n \<Longrightarrow> 2 * d < F \<Longrightarrow> scan_once F d (replicate n CHR ''['' @ r) = RecursionError"
proof (induction d arbitrary: n F)
  case 0
  then obtain n' F' where "n = Suc n'" "F = Suc F'" by (cases n; cases F) auto
  then show ?case by simp
next
  case (Suc d)
  then obtain n' where n: "n = Suc (Suc n')" and n': "d < Suc n'"
    by (cases n; cases "n - 1") auto
  from Suc.prems obtain F' where F: "F = Suc (Suc F')" and F': "2 * d < F'"
    by (cases F; cases "F - 1") auto
  let ?rest = "CHR ''['' # replicate n' CHR ''['' @ r"
  have w: "skip_ws ?rest = ?rest" by (simp add: skip_ws_def is_ws_def)
  have nb: "\<not> starts '']'' ?rest" by (simp add: starts_Cons)
  have ih: "scan_once F' d ?rest = RecursionError"
    using Suc.IH [OF n' F'] by simp
  have "scan_items (Suc F') d ?rest = RecursionError"
    by (subst scan_items.simps) (simp only: ih then_scan.simps)
  then have "scan_once (Suc (Suc F')) (Suc d) (CHR ''['' # ?rest) = RecursionError"
    apply (subst scan_once.simps)
    apply (simp only: list.sel w nb if_False)
    apply (simp del: scan_once.simps)
    done
  then show ?case unfolding n F by simp
qed

lemma json_loads_nested:
  assumes "d < n"
  shows "json_loads d (replicate n CHR ''['' @ r) = RecursionError"
proof -
  let ?s = "replicate n CHR ''['' @ r"
  obtain n' where n: "n = Suc n'" using assms by (cases n) auto
  have w: "skip_ws ?s = ?s" unfolding n by (simp add: skip_ws_def is_ws_def)
  have "2 * d < Suc (2 * length ?s)" using assms by simp
  from scan_once_nested [OF assms this]
  show ?thesis unfolding json_loads_def w by (simp only: then_scan.simps)
qed

lemma skip_ws_brackets: "skip_ws (replicate n CHR ''['') = replicate n CHR ''[''"
  by (cases n) (simp_all add: skip_ws_def is_ws_def)

lemma starts_brackets: "\<not> starts '']'' (replicate n CHR ''['')"
  by (cases n) (simp_all add: starts_Cons starts_def)

lemma scan_once_unclosed:
  "n \<le> d \<Longrightarrow> 2 * n < F \<Longrightarrow> scan_once F d (replicate n CHR ''['') = Rejected"
proof (induction n arbitrary: d F)
  case 0
  then obtain F' where "F = Suc F'" by (cases F) auto
  then show ?case by simp
next
  case (Suc n)
  then obtain d' where d: "d = Suc d'" and d': "n \<le> d'" by (cases d) auto
  from Suc.prems obtain F' where F: "F = Suc (Suc F')" and F': "2 * n < F'"
    by (cases F; cases "F - 1") auto
  let ?rest = "replicate n CHR ''[''"
  have ih: "scan_once F' d' ?rest = Rejected" by (rule Suc.IH [OF d' F'])
  have "scan_items (Suc F') d' ?rest = Rejected"
    by (subst scan_items.simps) (simp only: ih then_scan.simps)
  then have "scan_once (Suc (Suc F')) (Suc d') (CHR ''['' # ?rest) = Rejected"
    apply (subst scan_once.simps)
    apply (simp only: list.sel skip_ws_brackets starts_brackets if_False)
    apply (simp del: scan_once.simps)
    done
  then show ?case unfolding d F by simp
qed

lemma json_loads_unclosed:
  assumes "n \<le> d"
  shows "json_loads d (replicate n CHR ''['') = Rejected"
proof -
  have "2 * n < Suc (2 * length (replicate n CHR ''[''))" by simp
  from scan_once_unclosed [OF assms this]
  show ?thesis unfolding json_loads_def skip_ws_brackets by (simp only: then_scan.simps)
qed

lemma load_tasks_text_fuel: "load_tasks_text d f \<noteq> OutOfFuel"
  using json_loads_fuel [of d]
  by (cases f) (auto simp: load_tasks_text_def split: scanned.splits)

lemma load_tasks_text_decode_text:
  assumes "decode_text s = Some c"
  shows "\<exists>j. load_tasks_text 2 (Some s) = Scanned j \<and> tasks_of_json j = Some (load_tasks (Some c))"
proof (cases "json_loads 2 s")
  case Rejected
  then have "c = NotJson s" using assms by (simp add: decode_text_def)
  then show ?thesis using Rejected
    by (simp add: load_tasks_text_def load_tasks_def tasks_of_json_def)
next
  case (Scanned j)
  then obtain ts where "tasks_of_json j = Some ts" "c = TaskArray ts"
    using assms by (auto simp: decode_text_def)
  then show ?thesis using Scanned by (simp add: load_tasks_text_def load_tasks_def)
qed (use assms in \<open>simp_all add: decode_text_def\<close>)

subsection \<open>C1: what create accepts and stores\<close>

text \<open>
  C1 says that create rejects a description that is empty, white space only or longer than
  500 characters, and stores the trimmed description. Neither program does all of it.
  \<open>create_task\<close> (FastAPI) limits the length and never trims: it accepts three blanks and
  stores \<open>''  My task  ''\<close> as given. \<open>create_view\<close> (Django) trims and rejects white
  space, and has no limit on the length: it accepts 501 characters.
\<close>

theorem C1_counterexample:
  "fst (create_view ''t'' [''description'' \<mapsto> PStr (replicate 501 CHR ''a'')] None) =
     Inr \<lparr>id' = 1, description = replicate 501 CHR ''a'', status = ''todo'',
          createdAt = ''t'', updatedAt = ''t''\<rparr> \<and>
   fst (create_task ''t'' ''   '' None) =
     Inr \<lparr>id' = 1, description = ''   '', status = ''todo'', createdAt = ''t'', updatedAt = ''t''\<rparr> \<and>
   fst (create_task ''t'' ''  My task  '' None) =
     Inr \<lparr>id' = 1, description = ''  My task  '', status = ''todo'',
          createdAt = ''t'', updatedAt = ''t''\<rparr>"
  by (simp add: create_view_def create_task_def TaskCreate_def data_get_def strip_def isspace_def
      load_tasks_def get_next_id_def Let_def)

text \<open>
  C1 as amended. \<open>create_task\<close> fails with \<open>ValidationError\<close> exactly when the description
  is empty or longer than 500 characters, and otherwise stores the description as given.
  \<open>create_view\<close> fails with \<open>ValidationError\<close> exactly when the description is not a
  string that is non-empty after trimming, and otherwise stores the trimmed description,
  whatever its length. On success both append a task with the next id, status todo and
  both time stamps \<open>now\<close>, save the list and return the task.
\<close>

theorem C1_create:
  "(fst (create_task now d f) = Inl ValidationError \<longleftrightarrow> d = [] \<or> 500 < length d) \<and>
   (d \<noteq> [] \<and> length d \<le> 500 \<longrightarrow>
      create_task now d f =
        (Inr \<lparr>id' = get_next_id (load_tasks f), description = d, status = ''todo'',
              createdAt = now, updatedAt = now\<rparr>,
         save_tasks (load_tasks f @
           [\<lparr>id' = get_next_id (load_tasks f), description = d, status = ''todo'',
             createdAt = now, updatedAt = now\<rparr>]))) \<and>
   (fst (create_view now data f) = Inl ValidationError \<longleftrightarrow>
      \<not> (\<exists>s. data_get data ''description'' = PStr s \<and> strip s \<noteq> [])) \<and>
   (data_get data ''description'' = PStr s \<and> strip s \<noteq> [] \<longrightarrow>
      create_view now data f =
        (Inr \<lparr>id' = get_next_id (load_tasks f), description = strip s, status = ''todo'',
              createdAt = now, updatedAt = now\<rparr>,
         save_tasks (load_tasks f @
           [\<lparr>id' = get_next_id (load_tasks f), description = strip s, status = ''todo'',
             createdAt = now, updatedAt = now\<rparr>])))"
proof -
  have strip_Nil: "strip [] = []" by (simp add: strip_def)
  have a: "fst (create_task now d f) = Inl ValidationError \<longleftrightarrow> d = [] \<or> 500 < length d"
    by (cases d) (auto simp: create_task_def TaskCreate_def Let_def)
  have b: "d \<noteq> [] \<and> length d \<le> 500 \<longrightarrow>
      create_task now d f =
        (Inr \<lparr>id' = get_next_id (load_tasks f), description = d, status = ''todo'',
              createdAt = now, updatedAt = now\<rparr>,
         save_tasks (load_tasks f @
           [\<lparr>id' = get_next_id (load_tasks f), description = d, status = ''todo'',
             createdAt = now, updatedAt = now\<rparr>]))"
    by (cases d) (auto simp: create_task_def TaskCreate_def Let_def)
  have c: "fst (create_view now data f) = Inl ValidationError \<longleftrightarrow>
      \<not> (\<exists>s. data_get data ''description'' = PStr s \<and> strip s \<noteq> [])"
    by (cases "data_get data ''description''")
       (auto simp: create_view_def Let_def strip_Nil)
  have d: "data_get data ''description'' = PStr s \<and> strip s \<noteq> [] \<longrightarrow>
      create_view now data f =
        (Inr \<lparr>id' = get_next_id (load_tasks f), description = strip s, status = ''todo'',
              createdAt = now, updatedAt = now\<rparr>,
         save_tasks (load_tasks f @
           [\<lparr>id' = get_next_id (load_tasks f), description = strip s, status = ''todo'',
             createdAt = now, updatedAt = now\<rparr>]))"
    by (auto simp: create_view_def Let_def strip_Nil)
  from a b c d show ?thesis by blast
qed

text \<open>
  The theorem of C1 at the description \<open>''  My task  ''\<close>, on no file.
\<close>

theorem C1_create_witness:
  "''  My task  '' \<noteq> [] \<and> length ''  My task  '' \<le> 500 \<and>
   create_task ''t'' ''  My task  '' None =
     (Inr \<lparr>id' = 1, description = ''  My task  '', status = ''todo'',
           createdAt = ''t'', updatedAt = ''t''\<rparr>,
      save_tasks [\<lparr>id' = 1, description = ''  My task  '', status = ''todo'',
           createdAt = ''t'', updatedAt = ''t''\<rparr>]) \<and>
   data_get [''description'' \<mapsto> PStr ''  My task  ''] ''description'' = PStr ''  My task  '' \<and>
   strip ''  My task  '' = ''My task'' \<and>
   create_view ''t'' [''description'' \<mapsto> PStr ''  My task  ''] None =
     (Inr \<lparr>id' = 1, description = ''My task'', status = ''todo'',
           createdAt = ''t'', updatedAt = ''t''\<rparr>,
      save_tasks [\<lparr>id' = 1, description = ''My task'', status = ''todo'',
           createdAt = ''t'', updatedAt = ''t''\<rparr>])"
proof -
  have h1: "''  My task  '' \<noteq> [] \<and> length ''  My task  '' \<le> 500" by simp
  have s: "strip ''  My task  '' = ''My task''" by (simp add: strip_def isspace_def)
  have h2: "data_get [''description'' \<mapsto> PStr ''  My task  ''] ''description'' = PStr ''  My task  '' \<and>
            strip ''  My task  '' \<noteq> []"
    by (simp add: data_get_def s)
  note inst = C1_create [of "''t''" "''  My task  ''" None "[''description'' \<mapsto> PStr ''  My task  '']"
      "''  My task  ''"]
  from inst h1 have a: "create_task ''t'' ''  My task  '' None =
        (Inr \<lparr>id' = get_next_id (load_tasks None), description = ''  My task  '', status = ''todo'',
              createdAt = ''t'', updatedAt = ''t''\<rparr>,
         save_tasks (load_tasks None @
           [\<lparr>id' = get_next_id (load_tasks None), description = ''  My task  '', status = ''todo'',
             createdAt = ''t'', updatedAt = ''t''\<rparr>]))"
    by blast
  from inst h2 have b: "create_view ''t'' [''description'' \<mapsto> PStr ''  My task  ''] None =
        (Inr \<lparr>id' = get_next_id (load_tasks None), description = strip ''  My task  '', status = ''todo'',
              createdAt = ''t'', updatedAt = ''t''\<rparr>,
         save_tasks (load_tasks None @
           [\<lparr>id' = get_next_id (load_tasks None), description = strip ''  My task  '', status = ''todo'',
             createdAt = ''t'', updatedAt = ''t''\<rparr>]))"
    by blast
  show ?thesis
    using h1 h2 s a b by (simp add: load_tasks_None get_next_id_Nil)
qed

subsection \<open>C2: the next id\<close>

text \<open>
  C2 says that the ids of successive creates strictly increase and that no id is used
  again, also after a delete. In both programs the next id is one more than the greatest
  id in the file, so the id of the last task comes back once that task is deleted:
  create, create, delete 2, create gives the ids 1, 2 and 2 again.
\<close>

theorem C2_counterexample:
  "map_sum id id' (fst (create_task ''t1'' ''Buy milk'' None)) = Inr 1 \<and>
   map_sum id id' (fst (create_task ''t2'' ''Walk dog'' scenario_1)) = Inr 2 \<and>
   fst (delete_task 2 scenario_2) = Inr () \<and>
   map_sum id id' (fst (create_task ''t3'' ''Read book'' scenario_3)) = Inr 2 \<and>
   map_sum id id' (fst (create_view ''t1'' [''description'' \<mapsto> PStr ''Buy milk''] None)) = Inr 1 \<and>
   map_sum id id' (fst (create_view ''t2'' [''description'' \<mapsto> PStr ''Walk dog''] view_scenario_1)) = Inr 2 \<and>
   fst (destroy_view (Some 2) view_scenario_2) = Inr () \<and>
   map_sum id id' (fst (create_view ''t3'' [''description'' \<mapsto> PStr ''Read book''] view_scenario_3)) = Inr 2"
  by (simp add: view_scenario_1_eq view_scenario_2_eq view_scenario_3_eq
      scenario_1_eq scenario_2_eq scenario_3_eq
      create_task_def TaskCreate_def delete_task_def create_view_def destroy_view_def
      data_get_def strip_def isspace_def load_save load_tasks_None get_next_id_def
      find_task_index_def find_task_def Let_def pop_def)

text \<open>
  C2 as amended. \<open>get_next_id\<close> is 1 on the empty list and one more than the greatest id
  otherwise, so it is greater than every id in the list. Hence a create gives an id
  greater than every id in the file at that moment, and of two creates with nothing
  between them the second gets the id of the first plus one. An id can come back: when
  the task that a create has just made is deleted, the next create gives its id again.
  For \<open>create_task\<close> and \<open>delete_task\<close> (FastAPI), \<open>create_view\<close> and \<open>destroy_view\<close>
  (Django).
\<close>

theorem C2_next_id:
  "get_next_id [] = 1 \<and>
   (tasks \<noteq> [] \<longrightarrow> get_next_id tasks = Max (id' ` set tasks) + 1) \<and>
   (\<forall>t\<in>set tasks. id' t < get_next_id tasks) \<and>
   (create_task now1 d1 f = (Inr t1, f1) \<and> create_task now2 d2 f1 = (Inr t2, f2) \<longrightarrow>
      (\<forall>t\<in>set (load_tasks f). id' t < id' t1) \<and> id' t2 = id' t1 + 1) \<and>
   (create_view now1 data1 f = (Inr t1, f1) \<and> create_view now2 data2 f1 = (Inr t2, f2) \<longrightarrow>
      (\<forall>t\<in>set (load_tasks f). id' t < id' t1) \<and> id' t2 = id' t1 + 1) \<and>
   (create_task now1 d1 g = (Inr u1, g1) \<and> delete_task (id' u1) g1 = (Inr (), g2) \<and>
    create_task now2 d2 g2 = (Inr u2, g3) \<longrightarrow> id' u2 = id' u1) \<and>
   (create_view now1 data1 g = (Inr u1, g1) \<and> destroy_view (Some (id' u1)) g1 = (Inr (), g2) \<and>
    create_view now2 data2 g2 = (Inr u2, g3) \<longrightarrow> id' u2 = id' u1)"
proof -
  have a: "tasks \<noteq> [] \<longrightarrow> get_next_id tasks = Max (id' ` set tasks) + 1"
    by (simp add: get_next_id_Max)
  have b: "\<forall>t\<in>set tasks. id' t < get_next_id tasks"
    by (simp add: get_next_id_gt)
  have step: "(\<forall>t\<in>set (load_tasks f). id' t < id' t1) \<and> id' t2 = id' t1 + 1"
    if 1: "id' t1 = get_next_id (load_tasks f)" and 2: "f1 = save_tasks (load_tasks f @ [t1])"
      and 3: "id' t2 = get_next_id (load_tasks f1)" for f f1 :: tasks_file and t1 t2 :: task
  proof -
    have lt: "\<forall>t\<in>set (load_tasks f). id' t < id' t1"
      using 1 by (simp add: get_next_id_gt)
    have "load_tasks f1 = load_tasks f @ [t1]" using 2 by (simp add: load_save)
    then have "get_next_id (load_tasks f1) = id' t1 + 1"
      using get_next_id_snoc [OF lt] by simp
    then show ?thesis using lt 3 by simp
  qed
  have c: "create_task now1 d1 f = (Inr t1, f1) \<and> create_task now2 d2 f1 = (Inr t2, f2) \<longrightarrow>
      (\<forall>t\<in>set (load_tasks f). id' t < id' t1) \<and> id' t2 = id' t1 + 1"
  proof
    assume h: "create_task now1 d1 f = (Inr t1, f1) \<and> create_task now2 d2 f1 = (Inr t2, f2)"
    from h create_task_Inr [of now1 d1 f t1 f1] have 1: "id' t1 = get_next_id (load_tasks f)"
      and 2: "f1 = save_tasks (load_tasks f @ [t1])" by auto
    from h create_task_Inr [of now2 d2 f1 t2 f2] have 3: "id' t2 = get_next_id (load_tasks f1)"
      by auto
    show "(\<forall>t\<in>set (load_tasks f). id' t < id' t1) \<and> id' t2 = id' t1 + 1"
      by (rule step [OF 1 2 3])
  qed
  have d: "create_view now1 data1 f = (Inr t1, f1) \<and> create_view now2 data2 f1 = (Inr t2, f2) \<longrightarrow>
      (\<forall>t\<in>set (load_tasks f). id' t < id' t1) \<and> id' t2 = id' t1 + 1"
  proof
    assume h: "create_view now1 data1 f = (Inr t1, f1) \<and> create_view now2 data2 f1 = (Inr t2, f2)"
    from h create_view_Inr [of now1 data1 f t1 f1] have 1: "id' t1 = get_next_id (load_tasks f)"
      and 2: "f1 = save_tasks (load_tasks f @ [t1])" by auto
    from h create_view_Inr [of now2 data2 f1 t2 f2] have 3: "id' t2 = get_next_id (load_tasks f1)"
      by auto
    show "(\<forall>t\<in>set (load_tasks f). id' t < id' t1) \<and> id' t2 = id' t1 + 1"
      by (rule step [OF 1 2 3])
  qed
  have restored: "load_tasks g2 = load_tasks g"
    if 1: "id' u1 = get_next_id (load_tasks g)" and 2: "g1 = save_tasks (load_tasks g @ [u1])"
      and 3: "g2 = save_tasks (pop (load_tasks g1) (index_of (load_tasks g1) (id' u1)))"
    for g g1 g2 :: tasks_file and u1 :: task
  proof -
    have l1: "load_tasks g1 = load_tasks g @ [u1]" using 2 by (simp add: load_save)
    have fresh: "id' u1 \<notin> id' ` set (load_tasks g)"
      using 1 get_next_id_fresh [of "load_tasks g"] by simp
    have "index_of (load_tasks g @ [u1]) (id' u1) = length (load_tasks g)"
      by (rule index_of_snoc_fresh [OF fresh])
    then show ?thesis using 3 l1 by (simp add: load_save pop_snoc)
  qed
  have e: "create_task now1 d1 g = (Inr u1, g1) \<and> delete_task (id' u1) g1 = (Inr (), g2) \<and>
    create_task now2 d2 g2 = (Inr u2, g3) \<longrightarrow> id' u2 = id' u1"
  proof
    assume h: "create_task now1 d1 g = (Inr u1, g1) \<and> delete_task (id' u1) g1 = (Inr (), g2) \<and>
      create_task now2 d2 g2 = (Inr u2, g3)"
    from h create_task_Inr [of now1 d1 g u1 g1] have 1: "id' u1 = get_next_id (load_tasks g)"
      and 2: "g1 = save_tasks (load_tasks g @ [u1])" by auto
    from h have p: "id' u1 \<in> id' ` set (load_tasks g1)" using delete_task_Inr by blast
    from h delete_task_found [OF p]
    have 3: "g2 = save_tasks (pop (load_tasks g1) (index_of (load_tasks g1) (id' u1)))" by simp
    from h create_task_Inr [of now2 d2 g2 u2 g3] have "id' u2 = get_next_id (load_tasks g2)"
      by auto
    then show "id' u2 = id' u1" using restored [OF 1 2 3] 1 by simp
  qed
  have g: "create_view now1 data1 g = (Inr u1, g1) \<and> destroy_view (Some (id' u1)) g1 = (Inr (), g2) \<and>
    create_view now2 data2 g2 = (Inr u2, g3) \<longrightarrow> id' u2 = id' u1"
  proof
    assume h: "create_view now1 data1 g = (Inr u1, g1) \<and>
      destroy_view (Some (id' u1)) g1 = (Inr (), g2) \<and> create_view now2 data2 g2 = (Inr u2, g3)"
    from h create_view_Inr [of now1 data1 g u1 g1] have 1: "id' u1 = get_next_id (load_tasks g)"
      and 2: "g1 = save_tasks (load_tasks g @ [u1])" by auto
    from h have p: "id' u1 \<in> id' ` set (load_tasks g1)" using destroy_view_Inr by blast
    from h destroy_view_found [OF p]
    have 3: "g2 = save_tasks (pop (load_tasks g1) (index_of (load_tasks g1) (id' u1)))" by simp
    from h create_view_Inr [of now2 data2 g2 u2 g3] have "id' u2 = get_next_id (load_tasks g2)"
      by auto
    then show "id' u2 = id' u1" using restored [OF 1 2 3] 1 by simp
  qed
  show ?thesis by (intro conjI get_next_id_Nil a b c d e g)
qed

text \<open>
  The theorem of C2 on the scenario: the first two creates get the ids 1 and 2, and the
  create after the delete of task 2 gets the id 2 again.
\<close>

theorem C2_next_id_witness:
  "[\<lparr>id' = 1, description = ''Buy milk'', status = ''todo'', createdAt = ''t1'', updatedAt = ''t1''\<rparr>] \<noteq> [] \<and>
   get_next_id [\<lparr>id' = 1, description = ''Buy milk'', status = ''todo'', createdAt = ''t1'', updatedAt = ''t1''\<rparr>] = 2 \<and>
   create_task ''t1'' ''Buy milk'' None =
     (Inr \<lparr>id' = 1, description = ''Buy milk'', status = ''todo'', createdAt = ''t1'', updatedAt = ''t1''\<rparr>,
      scenario_1) \<and>
   create_task ''t2'' ''Walk dog'' scenario_1 =
     (Inr \<lparr>id' = 2, description = ''Walk dog'', status = ''todo'', createdAt = ''t2'', updatedAt = ''t2''\<rparr>,
      scenario_2) \<and>
   create_view ''t1'' [''description'' \<mapsto> PStr ''Buy milk''] None =
     (Inr \<lparr>id' = 1, description = ''Buy milk'', status = ''todo'', createdAt = ''t1'', updatedAt = ''t1''\<rparr>,
      view_scenario_1) \<and>
   create_view ''t2'' [''description'' \<mapsto> PStr ''Walk dog''] view_scenario_1 =
     (Inr \<lparr>id' = 2, description = ''Walk dog'', status = ''todo'', createdAt = ''t2'', updatedAt = ''t2''\<rparr>,
      view_scenario_2) \<and>
   id' \<lparr>id' = 2, description = ''Walk dog'', status = ''todo'', createdAt = ''t2'', updatedAt = ''t2''\<rparr> =
     id' \<lparr>id' = 1, description = ''Buy milk'', status = ''todo'', createdAt = ''t1'', updatedAt = ''t1''\<rparr> + 1 \<and>
   delete_task 2 scenario_2 = (Inr (), scenario_3) \<and>
   destroy_view (Some 2) view_scenario_2 = (Inr (), view_scenario_3) \<and>
   create_task ''t3'' ''Read book'' scenario_3 =
     (Inr \<lparr>id' = 2, description = ''Read book'', status = ''todo'', createdAt = ''t3'', updatedAt = ''t3''\<rparr>,
      snd (create_task ''t3'' ''Read book'' scenario_3)) \<and>
   create_view ''t3'' [''description'' \<mapsto> PStr ''Read book''] view_scenario_3 =
     (Inr \<lparr>id' = 2, description = ''Read book'', status = ''todo'', createdAt = ''t3'', updatedAt = ''t3''\<rparr>,
      snd (create_view ''t3'' [''description'' \<mapsto> PStr ''Read book''] view_scenario_3)) \<and>
   id' \<lparr>id' = 2, description = ''Read book'', status = ''todo'', createdAt = ''t3'', updatedAt = ''t3''\<rparr> =
     id' \<lparr>id' = 2, description = ''Walk dog'', status = ''todo'', createdAt = ''t2'', updatedAt = ''t2''\<rparr>"
proof -
  let ?T1 = "\<lparr>id' = 1, description = ''Buy milk'', status = ''todo'', createdAt = ''t1'', updatedAt = ''t1''\<rparr>"
  let ?T2 = "\<lparr>id' = 2, description = ''Walk dog'', status = ''todo'', createdAt = ''t2'', updatedAt = ''t2''\<rparr>"
  let ?T3 = "\<lparr>id' = 2, description = ''Read book'', status = ''todo'', createdAt = ''t3'', updatedAt = ''t3''\<rparr>"
  let ?F = "snd (create_task ''t3'' ''Read book'' scenario_3)"
  let ?G = "snd (create_view ''t3'' [''description'' \<mapsto> PStr ''Read book''] view_scenario_3)"
  have ne: "[?T1] \<noteq> []" by simp
  have c1: "create_task ''t1'' ''Buy milk'' None = (Inr ?T1, scenario_1)"
    by (simp add: scenario_1_eq create_task_def TaskCreate_def load_tasks_None get_next_id_Nil Let_def)
  have c2: "create_task ''t2'' ''Walk dog'' scenario_1 = (Inr ?T2, scenario_2)"
    by (simp add: scenario_1_eq scenario_2_eq create_task_def TaskCreate_def load_save
        get_next_id_def Let_def)
  have v1: "create_view ''t1'' [''description'' \<mapsto> PStr ''Buy milk''] None = (Inr ?T1, view_scenario_1)"
    by (simp add: view_scenario_1_eq scenario_1_eq create_view_def data_get_def strip_def
        isspace_def load_tasks_None get_next_id_Nil Let_def)
  have v2: "create_view ''t2'' [''description'' \<mapsto> PStr ''Walk dog''] view_scenario_1 =
      (Inr ?T2, view_scenario_2)"
    by (simp add: view_scenario_1_eq view_scenario_2_eq scenario_1_eq scenario_2_eq create_view_def
        data_get_def strip_def isspace_def load_save get_next_id_def Let_def)
  have d1: "delete_task 2 scenario_2 = (Inr (), scenario_3)"
    by (simp add: scenario_3_def delete_task_def find_task_index_def load_scenario_2 Let_def)
  have d2: "destroy_view (Some 2) view_scenario_2 = (Inr (), view_scenario_3)"
    by (simp add: view_scenario_3_def view_scenario_2_eq destroy_view_def find_task_def
        load_scenario_2 Let_def)
  have c3: "create_task ''t3'' ''Read book'' scenario_3 = (Inr ?T3, ?F)"
    by (simp add: create_task_def TaskCreate_def load_scenario_3 get_next_id_def Let_def)
  have v3: "create_view ''t3'' [''description'' \<mapsto> PStr ''Read book''] view_scenario_3 = (Inr ?T3, ?G)"
    by (simp add: view_scenario_3_eq create_view_def data_get_def strip_def isspace_def
        load_scenario_3 get_next_id_def Let_def)
  have i2: "id' ?T2 = 2" by simp
  note inst = C2_next_id [where tasks = "[?T1]" and ?now1.0 = "''t1''" and ?d1.0 = "''Buy milk''"
      and f = None and ?t1.0 = ?T1 and ?f1.0 = scenario_1 and ?now2.0 = "''t2''"
      and ?d2.0 = "''Walk dog''" and ?t2.0 = ?T2 and ?f2.0 = scenario_2]
  note del = C2_next_id [where ?now1.0 = "''t2''" and ?d1.0 = "''Walk dog''"
      and g = scenario_1 and ?u1.0 = ?T2 and ?g1.0 = scenario_2 and ?g2.0 = scenario_3
      and ?now2.0 = "''t3''" and ?d2.0 = "''Read book''" and ?u2.0 = ?T3 and ?g3.0 = ?F]
  from inst ne have n: "get_next_id [?T1] = Max (id' ` set [?T1]) + 1" by blast
  from inst c1 c2 have s: "id' ?T2 = id' ?T1 + 1" by blast
  from n have n2: "get_next_id [?T1] = 2" by simp
  have d1': "delete_task (id' ?T2) scenario_2 = (Inr (), scenario_3)" using d1 by (simp only: i2)
  from del c2 d1' c3 have r: "id' ?T3 = id' ?T2" by blast
  show ?thesis by (intro conjI ne n2 c1 c2 v1 v2 s d1 d2 c3 v3 r)
qed

subsection \<open>C3: loading from no file or from a file that cannot be parsed\<close>

text \<open>
  C3 says that loading gives the empty list, and raises no error, whenever the content
  of the file cannot be parsed. \<^verbatim>\<open>load_tasks\<close> catches \<^verbatim>\<open>JSONDecodeError\<close> and nothing
  else. A file of 1001 opening brackets is no JSON, and is rejected as such when the
  decoder has 1001 levels of recursion; with 1000 levels left the decoder stops with
  \<open>RecursionError\<close>, and so does \<^verbatim>\<open>load_tasks\<close>.
\<close>

theorem C3_counterexample:
  "json_loads 1001 (replicate 1001 CHR ''['') = Rejected \<and>
   load_tasks_text 1000 (Some (replicate 1001 CHR ''['')) = RecursionError \<and>
   load_tasks_text 1000 (Some (replicate 1001 CHR ''['')) \<noteq> Scanned (JArr [])"
proof -
  have le: "(1001::nat) \<le> 1001" and less: "(1000::nat) < 1001" by simp_all
  have a: "json_loads 1001 (replicate 1001 CHR ''['') = Rejected"
    by (rule json_loads_unclosed [OF le])
  have "json_loads 1000 (replicate 1001 CHR ''['' @ []) = RecursionError"
    by (rule json_loads_nested [OF less])
  then have "json_loads 1000 (replicate 1001 CHR ''['') = RecursionError"
    by (simp only: append_Nil2)
  then have b: "load_tasks_text 1000 (Some (replicate 1001 CHR ''['')) = RecursionError"
    unfolding load_tasks_text_def by (simp only: option.case scanned.case)
  have c: "load_tasks_text 1000 (Some (replicate 1001 CHR ''['')) \<noteq> Scanned (JArr [])"
    unfolding b by simp
  show ?thesis by (intro conjI a b c)
qed

text \<open>
  C3 as amended. Loading gives the empty list when the file is absent and when
  \<^verbatim>\<open>json.load\<close> rejects its content with \<^verbatim>\<open>JSONDecodeError\<close>: so for the text
  \<open>''not json''\<close>, and for brackets left open when the levels of recursion suffice for
  them. Another error of \<^verbatim>\<open>json.load\<close> is not caught: a text that opens more arrays than
  there are levels of recursion left makes loading stop with \<open>RecursionError\<close>, and
  loading stops with that error exactly when the decoder does. On every file loading
  gives an answer: the fuel of the decoder is never used up. The first two parts are
  also stated for \<open>load_tasks\<close> on the content of the file, as the handlers use it.
\<close>

theorem C3_load_tasks_empty:
  "load_tasks None = [] \<and>
   (json_load c = None \<longrightarrow> load_tasks (Some c) = []) \<and>
   load_tasks_text d None = Scanned (JArr []) \<and>
   (json_loads d s = Rejected \<longrightarrow> load_tasks_text d (Some s) = Scanned (JArr [])) \<and>
   load_tasks_text d (Some ''not json'') = Scanned (JArr []) \<and>
   (m \<le> d \<longrightarrow> load_tasks_text d (Some (replicate m CHR ''['')) = Scanned (JArr [])) \<and>
   (d < n \<longrightarrow> load_tasks_text d (Some (replicate n CHR ''['' @ r)) = RecursionError) \<and>
   (load_tasks_text d f = RecursionError \<longleftrightarrow>
      (\<exists>x. f = Some x \<and> json_loads d x = RecursionError)) \<and>
   load_tasks_text d f \<noteq> OutOfFuel"
proof -
  have a: "load_tasks None = []" by (simp add: load_tasks_def)
  have b: "json_load c = None \<longrightarrow> load_tasks (Some c) = []" by (simp add: load_tasks_def)
  have c: "load_tasks_text d None = Scanned (JArr [])" by (simp add: load_tasks_text_def)
  have rej: "load_tasks_text d (Some x) = Scanned (JArr [])" if "json_loads d x = Rejected" for x
    unfolding load_tasks_text_def by (simp only: that option.case scanned.case)
  have e: "load_tasks_text d (Some ''not json'') = Scanned (JArr [])"
    by (rule rej [OF json_loads_not_json])
  have g: "m \<le> d \<longrightarrow> load_tasks_text d (Some (replicate m CHR ''['')) = Scanned (JArr [])"
    using rej [OF json_loads_unclosed] by blast
  have h: "d < n \<longrightarrow> load_tasks_text d (Some (replicate n CHR ''['' @ r)) = RecursionError"
  proof
    assume "d < n"
    then have "json_loads d (replicate n CHR ''['' @ r) = RecursionError"
      by (rule json_loads_nested)
    then show "load_tasks_text d (Some (replicate n CHR ''['' @ r)) = RecursionError"
      unfolding load_tasks_text_def by (simp only: option.case scanned.case)
  qed
  have i: "load_tasks_text d f = RecursionError \<longleftrightarrow>
             (\<exists>x. f = Some x \<and> json_loads d x = RecursionError)"
    by (cases f) (auto simp: load_tasks_text_def split: scanned.splits)
  have j: "load_tasks_text d f \<noteq> OutOfFuel" by (rule load_tasks_text_fuel)
  from rej have d': "json_loads d s = Rejected \<longrightarrow> load_tasks_text d (Some s) = Scanned (JArr [])"
    by blast
  show ?thesis by (intro conjI a b c d' e g h i j)
qed

text \<open>
  The theorem of C3 with two levels of recursion: no file, the texts \<open>''not json''\<close>,
  \<open>''[''\<close> and \<open>''[[''\<close>, which are rejected, and the text \<open>''[[[''\<close>, one level too deep.
\<close>

theorem C3_load_tasks_empty_witness:
  "json_load (NotJson ''not json'') = None \<and>
   load_tasks None = [] \<and>
   load_tasks (Some (NotJson ''not json'')) = [] \<and>
   load_tasks_text 2 None = Scanned (JArr []) \<and>
   json_loads 2 ''['' = Rejected \<and>
   load_tasks_text 2 (Some ''['') = Scanned (JArr []) \<and>
   load_tasks_text 2 (Some ''not json'') = Scanned (JArr []) \<and>
   load_tasks_text 2 (Some ''[['') = Scanned (JArr []) \<and>
   load_tasks_text 2 (Some ''[[['') = RecursionError \<and>
   load_tasks_text 2 (Some ''[[['') \<noteq> OutOfFuel"
proof -
  note inst = C3_load_tasks_empty [of "NotJson ''not json''" 2 "''[''" 2 3 "[]" "Some ''[[[''"]
  have h1: "json_load (NotJson ''not json'') = None" by simp
  have "json_loads 2 (replicate 1 CHR ''['') = Rejected"
    by (rule json_loads_unclosed) simp
  then have h2: "json_loads 2 ''['' = Rejected" by simp
  have h3: "(2::nat) \<le> 2" and h4: "(2::nat) < 3" by simp_all
  have r2: "replicate 2 CHR ''['' = ''[[''" and r3: "replicate 3 CHR ''['' @ [] = ''[[[''"
    by (simp_all add: numeral_2_eq_2 numeral_3_eq_3)
  from inst have a: "load_tasks None = []" by (rule conjunct1)
  from inst h1 have b: "load_tasks (Some (NotJson ''not json'')) = []" by blast
  from inst have c: "load_tasks_text 2 None = Scanned (JArr [])" by blast
  from inst h2 have d: "load_tasks_text 2 (Some ''['') = Scanned (JArr [])" by blast
  from inst have e: "load_tasks_text 2 (Some ''not json'') = Scanned (JArr [])" by blast
  from inst h3 have "load_tasks_text 2 (Some (replicate 2 CHR ''['')) = Scanned (JArr [])" by blast
  then have g: "load_tasks_text 2 (Some ''[['') = Scanned (JArr [])" unfolding r2 .
  from inst h4 have "load_tasks_text 2 (Some (replicate 3 CHR ''['' @ [])) = RecursionError" by blast
  then have h: "load_tasks_text 2 (Some ''[[['') = RecursionError" unfolding r3 .
  from inst have i: "load_tasks_text 2 (Some ''[[['') \<noteq> OutOfFuel" by blast
  show ?thesis by (intro conjI h1 a b c h2 d e g h i)
qed

subsection \<open>C4: updating the status\<close>

text \<open>
  C4: with a status outside todo, in-progress and done, the update of the status fails with
  \<open>ValidationError\<close> and leaves the file as it was; with a valid status and an id that no
  task has it fails with \<open>NotFoundError\<close>, the file as it was; with a valid status and an
  id in the file it sets the status and \<open>updatedAt\<close> of the first task with that id, saves
  the list and returns that task, and the saved file holds it at the same position.
  For \<open>update_task_status\<close> (FastAPI) and \<open>status_view\<close> (Django).
\<close>

theorem C4_update_status:
  "(s \<notin> set valid_statuses \<longrightarrow> update_task_status now i s f = (Inl ValidationError, f)) \<and>
   (s \<in> set valid_statuses \<and> i \<notin> id' ` set (load_tasks f) \<longrightarrow>
      update_task_status now i s f = (Inl NotFoundError, f)) \<and>
   (s \<in> set valid_statuses \<and> i \<in> id' ` set (load_tasks f) \<longrightarrow>
      (let tasks = load_tasks f; k = index_of tasks i;
           t' = (tasks ! k)\<lparr>status := s, updatedAt := now\<rparr>
       in k < length tasks \<and> id' (tasks ! k) = i \<and>
          update_task_status now i s f = (Inr t', save_tasks (tasks[k := t'])) \<and>
          load_tasks (save_tasks (tasks[k := t'])) ! k = t')) \<and>
   (data_get data ''status'' \<notin> PStr ` set valid_statuses \<longrightarrow>
      status_view now (Some i) data f = (Inl ValidationError, f)) \<and>
   (data_get data ''status'' = PStr s \<and> s \<in> set valid_statuses \<and>
    i \<notin> id' ` set (load_tasks f) \<longrightarrow>
      status_view now (Some i) data f = (Inl NotFoundError, f)) \<and>
   (data_get data ''status'' = PStr s \<and> s \<in> set valid_statuses \<and>
    i \<in> id' ` set (load_tasks f) \<longrightarrow>
      (let tasks = load_tasks f; k = index_of tasks i;
           t' = (tasks ! k)\<lparr>status := s, updatedAt := now\<rparr>
       in status_view now (Some i) data f = (Inr t', save_tasks (tasks[k := t']))))"
proof -
  have a: "s \<notin> set valid_statuses \<longrightarrow> update_task_status now i s f = (Inl ValidationError, f)"
    by (simp add: update_task_status_def TaskStatus_def)
  have b: "s \<in> set valid_statuses \<and> i \<notin> id' ` set (load_tasks f) \<longrightarrow>
      update_task_status now i s f = (Inl NotFoundError, f)"
    by (simp add: update_task_status_def TaskStatus_def find_task_index_eq Let_def)
  have c: "s \<in> set valid_statuses \<and> i \<in> id' ` set (load_tasks f) \<longrightarrow>
      (let tasks = load_tasks f; k = index_of tasks i;
           t' = (tasks ! k)\<lparr>status := s, updatedAt := now\<rparr>
       in k < length tasks \<and> id' (tasks ! k) = i \<and>
          update_task_status now i s f = (Inr t', save_tasks (tasks[k := t'])) \<and>
          load_tasks (save_tasks (tasks[k := t'])) ! k = t')"
    by (simp add: Let_def update_task_status_found index_of_less index_of_id load_save)
  have d: "data_get data ''status'' \<notin> PStr ` set valid_statuses \<longrightarrow>
      status_view now (Some i) data f = (Inl ValidationError, f)"
    by (cases "data_get data ''status''") (auto simp: status_view_def)
  have e: "data_get data ''status'' = PStr s \<and> s \<in> set valid_statuses \<and>
    i \<notin> id' ` set (load_tasks f) \<longrightarrow>
      status_view now (Some i) data f = (Inl NotFoundError, f)"
    by (simp add: status_view_def find_task_eq Let_def)
  have g: "data_get data ''status'' = PStr s \<and> s \<in> set valid_statuses \<and>
    i \<in> id' ` set (load_tasks f) \<longrightarrow>
      (let tasks = load_tasks f; k = index_of tasks i;
           t' = (tasks ! k)\<lparr>status := s, updatedAt := now\<rparr>
       in status_view now (Some i) data f = (Inr t', save_tasks (tasks[k := t'])))"
    by (simp add: Let_def status_view_found)
  from a b c d e g show ?thesis by blast
qed

text \<open>
  The theorem of C4 on the two tasks of the scenario: status bogus, id 3, and task 1 done.
\<close>

theorem C4_update_status_witness:
  "''bogus'' \<notin> set valid_statuses \<and>
   update_task_status ''t3'' 1 ''bogus'' scenario_2 = (Inl ValidationError, scenario_2) \<and>
   ''done'' \<in> set valid_statuses \<and> 3 \<notin> id' ` set (load_tasks scenario_2) \<and>
   update_task_status ''t3'' 3 ''done'' scenario_2 = (Inl NotFoundError, scenario_2) \<and>
   1 \<in> id' ` set (load_tasks scenario_2) \<and>
   update_task_status ''t3'' 1 ''done'' scenario_2 =
     (Inr \<lparr>id' = 1, description = ''Buy milk'', status = ''done'', createdAt = ''t1'', updatedAt = ''t3''\<rparr>,
      save_tasks
       [\<lparr>id' = 1, description = ''Buy milk'', status = ''done'', createdAt = ''t1'', updatedAt = ''t3''\<rparr>,
        \<lparr>id' = 2, description = ''Walk dog'', status = ''todo'', createdAt = ''t2'', updatedAt = ''t2''\<rparr>]) \<and>
   data_get [''status'' \<mapsto> PStr ''bogus''] ''status'' \<notin> PStr ` set valid_statuses \<and>
   status_view ''t3'' (Some 1) [''status'' \<mapsto> PStr ''bogus''] scenario_2 =
     (Inl ValidationError, scenario_2) \<and>
   data_get [''status'' \<mapsto> PStr ''done''] ''status'' = PStr ''done'' \<and>
   status_view ''t3'' (Some 3) [''status'' \<mapsto> PStr ''done''] scenario_2 =
     (Inl NotFoundError, scenario_2) \<and>
   status_view ''t3'' (Some 1) [''status'' \<mapsto> PStr ''done''] scenario_2 =
     (Inr \<lparr>id' = 1, description = ''Buy milk'', status = ''done'', createdAt = ''t1'', updatedAt = ''t3''\<rparr>,
      save_tasks
       [\<lparr>id' = 1, description = ''Buy milk'', status = ''done'', createdAt = ''t1'', updatedAt = ''t3''\<rparr>,
        \<lparr>id' = 2, description = ''Walk dog'', status = ''todo'', createdAt = ''t2'', updatedAt = ''t2''\<rparr>])"
proof -
  have h1: "''bogus'' \<notin> set valid_statuses" by (simp add: valid_statuses_def)
  have h2: "''done'' \<in> set valid_statuses" by (simp add: valid_statuses_def)
  have h3: "3 \<notin> id' ` set (load_tasks scenario_2)" by (simp add: load_scenario_2)
  have h4: "1 \<in> id' ` set (load_tasks scenario_2)" by (simp add: load_scenario_2)
  have h5: "data_get [''status'' \<mapsto> PStr ''bogus''] ''status'' \<notin> PStr ` set valid_statuses"
    by (simp add: data_get_def valid_statuses_def)
  have h6: "data_get [''status'' \<mapsto> PStr ''done''] ''status'' = PStr ''done''"
    by (simp add: data_get_def)
  have k: "index_of (load_tasks scenario_2) 1 = 0" by (simp add: load_scenario_2 index_of_def)
  from C4_update_status [of "''bogus''" "''t3''" 1 scenario_2 "[''status'' \<mapsto> PStr ''bogus'']"] h1 h5
  have a: "update_task_status ''t3'' 1 ''bogus'' scenario_2 = (Inl ValidationError, scenario_2) \<and>
           status_view ''t3'' (Some 1) [''status'' \<mapsto> PStr ''bogus''] scenario_2 =
             (Inl ValidationError, scenario_2)"
    by blast
  from C4_update_status [of "''done''" "''t3''" 3 scenario_2 "[''status'' \<mapsto> PStr ''done'']"] h2 h3 h6
  have b: "update_task_status ''t3'' 3 ''done'' scenario_2 = (Inl NotFoundError, scenario_2) \<and>
           status_view ''t3'' (Some 3) [''status'' \<mapsto> PStr ''done''] scenario_2 =
             (Inl NotFoundError, scenario_2)"
    by blast
  from C4_update_status [of "''done''" "''t3''" 1 scenario_2 "[''status'' \<mapsto> PStr ''done'']"] h2 h4 h6
  have c: "update_task_status ''t3'' 1 ''done'' scenario_2 =
     (Inr \<lparr>id' = 1, description = ''Buy milk'', status = ''done'', createdAt = ''t1'', updatedAt = ''t3''\<rparr>,
      save_tasks
       [\<lparr>id' = 1, description = ''Buy milk'', status = ''done'', createdAt = ''t1'', updatedAt = ''t3''\<rparr>,
        \<lparr>id' = 2, description = ''Walk dog'', status = ''todo'', createdAt = ''t2'', updatedAt = ''t2''\<rparr>]) \<and>
     status_view ''t3'' (Some 1) [''status'' \<mapsto> PStr ''done''] scenario_2 =
     (Inr \<lparr>id' = 1, description = ''Buy milk'', status = ''done'', createdAt = ''t1'', updatedAt = ''t3''\<rparr>,
      save_tasks
       [\<lparr>id' = 1, description = ''Buy milk'', status = ''done'', createdAt = ''t1'', updatedAt = ''t3''\<rparr>,
        \<lparr>id' = 2, description = ''Walk dog'', status = ''todo'', createdAt = ''t2'', updatedAt = ''t2''\<rparr>])"
    by (simp add: Let_def index_of_def load_scenario_2)
  from h1 h2 h3 h4 h5 h6 a b c show ?thesis by blast
qed

subsection \<open>C5: updating the description\<close>

text \<open>
  C5 says that the update of the description validates as create is said to (non-empty
  after trimming, at most 500 characters) and stores the trimmed description.
  \<open>update_task\<close> (FastAPI) stores the description as given, untrimmed, and \<open>update_view\<close>
  (Django) has no limit on the length: it stores 501 characters.
\<close>

theorem C5_counterexample:
  "fst (update_task ''t3'' 1 ''  My task  '' scenario_1) =
     Inr \<lparr>id' = 1, description = ''  My task  '', status = ''todo'', createdAt = ''t1'',
          updatedAt = ''t3''\<rparr> \<and>
   fst (update_view ''t3'' (Some 1) [''description'' \<mapsto> PStr (replicate 501 CHR ''a'')] scenario_1) =
     Inr \<lparr>id' = 1, description = replicate 501 CHR ''a'', status = ''todo'', createdAt = ''t1'',
          updatedAt = ''t3''\<rparr>"
  by (simp add: update_task_def TaskUpdate_def update_view_def data_get_def strip_def isspace_def
      load_scenario_1 find_task_index_def find_task_def Let_def)

text \<open>
  C5 as amended. \<open>update_task\<close> applies the validation of \<open>create_task\<close> (it fails with
  \<open>ValidationError\<close> exactly when the description is empty or longer than 500
  characters), fails with \<open>NotFoundError\<close> when no task has the id, and otherwise stores
  the description as given and \<open>updatedAt\<close>, saves and returns the task.
  \<open>update_view\<close> fails with \<open>ValidationError\<close> when the description is missing or
  empty; for a string that is non-empty after trimming it fails with \<open>NotFoundError\<close> when
  no task has the id and otherwise stores the trimmed description and \<open>updatedAt\<close>, saves
  and returns the task. What \<open>update_view\<close> does with a description of white space only is
  left out of the statement.
\<close>

theorem C5_update_description:
  "TaskUpdate d = TaskCreate d \<and>
   (fst (update_task now i d f) = Inl ValidationError \<longleftrightarrow> d = [] \<or> 500 < length d) \<and>
   (d \<noteq> [] \<and> length d \<le> 500 \<and> i \<notin> id' ` set (load_tasks f) \<longrightarrow>
      update_task now i d f = (Inl NotFoundError, f)) \<and>
   (d \<noteq> [] \<and> length d \<le> 500 \<and> i \<in> id' ` set (load_tasks f) \<longrightarrow>
      (let tasks = load_tasks f; k = index_of tasks i;
           t' = (tasks ! k)\<lparr>description := d, updatedAt := now\<rparr>
       in k < length tasks \<and> id' (tasks ! k) = i \<and>
          update_task now i d f = (Inr t', save_tasks (tasks[k := t'])))) \<and>
   (\<not> truthy (data_get data ''description'') \<longrightarrow>
      update_view now (Some i) data f = (Inl ValidationError, f)) \<and>
   (data_get data ''description'' = PStr s \<and> strip s \<noteq> [] \<and>
    i \<notin> id' ` set (load_tasks f) \<longrightarrow>
      update_view now (Some i) data f = (Inl NotFoundError, f)) \<and>
   (data_get data ''description'' = PStr s \<and> strip s \<noteq> [] \<and>
    i \<in> id' ` set (load_tasks f) \<longrightarrow>
      (let tasks = load_tasks f; k = index_of tasks i;
           t' = (tasks ! k)\<lparr>description := strip s, updatedAt := now\<rparr>
       in update_view now (Some i) data f = (Inr t', save_tasks (tasks[k := t']))))"
proof -
  have z: "TaskUpdate d = TaskCreate d" by (simp add: TaskUpdate_def TaskCreate_def)
  have a: "fst (update_task now i d f) = Inl ValidationError \<longleftrightarrow> d = [] \<or> 500 < length d"
    by (cases d) (auto simp: update_task_def TaskUpdate_def Let_def)
  have b: "d \<noteq> [] \<and> length d \<le> 500 \<and> i \<notin> id' ` set (load_tasks f) \<longrightarrow>
      update_task now i d f = (Inl NotFoundError, f)"
    by (cases d) (auto simp: update_task_def TaskUpdate_def find_task_index_eq Let_def)
  have c: "d \<noteq> [] \<and> length d \<le> 500 \<and> i \<in> id' ` set (load_tasks f) \<longrightarrow>
      (let tasks = load_tasks f; k = index_of tasks i;
           t' = (tasks ! k)\<lparr>description := d, updatedAt := now\<rparr>
       in k < length tasks \<and> id' (tasks ! k) = i \<and>
          update_task now i d f = (Inr t', save_tasks (tasks[k := t'])))"
    by (cases d) (simp_all add: Let_def update_task_found index_of_less index_of_id)
  have e: "\<not> truthy (data_get data ''description'') \<longrightarrow>
      update_view now (Some i) data f = (Inl ValidationError, f)"
    by (simp add: update_view_def)
  have ne: "s \<noteq> []" if "strip s \<noteq> []" using that strip_Nil by auto
  have g: "data_get data ''description'' = PStr s \<and> strip s \<noteq> [] \<and>
    i \<notin> id' ` set (load_tasks f) \<longrightarrow>
      update_view now (Some i) data f = (Inl NotFoundError, f)"
    using ne by (auto simp: update_view_def find_task_eq Let_def)
  have h: "data_get data ''description'' = PStr s \<and> strip s \<noteq> [] \<and>
    i \<in> id' ` set (load_tasks f) \<longrightarrow>
      (let tasks = load_tasks f; k = index_of tasks i;
           t' = (tasks ! k)\<lparr>description := strip s, updatedAt := now\<rparr>
       in update_view now (Some i) data f = (Inr t', save_tasks (tasks[k := t'])))"
    using ne by (auto simp: Let_def update_view_found)
  from z a b c e g h show ?thesis by blast
qed

text \<open>
  The theorem of C5 on the first task of the scenario.
\<close>

theorem C5_update_description_witness:
  "''Buy bread'' \<noteq> [] \<and> length ''Buy bread'' \<le> 500 \<and>
   3 \<notin> id' ` set (load_tasks scenario_1) \<and> 1 \<in> id' ` set (load_tasks scenario_1) \<and>
   update_task ''t3'' 3 ''Buy bread'' scenario_1 = (Inl NotFoundError, scenario_1) \<and>
   update_task ''t3'' 1 ''Buy bread'' scenario_1 =
     (Inr \<lparr>id' = 1, description = ''Buy bread'', status = ''todo'', createdAt = ''t1'', updatedAt = ''t3''\<rparr>,
      save_tasks
       [\<lparr>id' = 1, description = ''Buy bread'', status = ''todo'', createdAt = ''t1'', updatedAt = ''t3''\<rparr>]) \<and>
   \<not> truthy (data_get [''description'' \<mapsto> PStr ''''] ''description'') \<and>
   update_view ''t3'' (Some 1) [''description'' \<mapsto> PStr ''''] scenario_1 =
     (Inl ValidationError, scenario_1) \<and>
   data_get [''description'' \<mapsto> PStr '' Buy bread ''] ''description'' = PStr '' Buy bread '' \<and>
   strip '' Buy bread '' = ''Buy bread'' \<and>
   update_view ''t3'' (Some 3) [''description'' \<mapsto> PStr '' Buy bread ''] scenario_1 =
     (Inl NotFoundError, scenario_1) \<and>
   update_view ''t3'' (Some 1) [''description'' \<mapsto> PStr '' Buy bread ''] scenario_1 =
     (Inr \<lparr>id' = 1, description = ''Buy bread'', status = ''todo'', createdAt = ''t1'', updatedAt = ''t3''\<rparr>,
      save_tasks
       [\<lparr>id' = 1, description = ''Buy bread'', status = ''todo'', createdAt = ''t1'', updatedAt = ''t3''\<rparr>])"
proof -
  have h1: "''Buy bread'' \<noteq> [] \<and> length ''Buy bread'' \<le> 500" by simp
  have h2: "3 \<notin> id' ` set (load_tasks scenario_1)" by (simp add: load_scenario_1)
  have h3: "1 \<in> id' ` set (load_tasks scenario_1)" by (simp add: load_scenario_1)
  have h4: "\<not> truthy (data_get [''description'' \<mapsto> PStr ''''] ''description'')"
    by (simp add: data_get_def)
  have h5: "data_get [''description'' \<mapsto> PStr '' Buy bread ''] ''description'' = PStr '' Buy bread ''"
    by (simp add: data_get_def)
  have h6: "strip '' Buy bread '' = ''Buy bread''" by (simp add: strip_def isspace_def)
  have h7: "strip '' Buy bread '' \<noteq> []" by (simp add: h6)
  note i3 = C5_update_description [of "''Buy bread''" "''t3''" 3 scenario_1
      "[''description'' \<mapsto> PStr '' Buy bread '']" "'' Buy bread ''"]
  note i1 = C5_update_description [of "''Buy bread''" "''t3''" 1 scenario_1
      "[''description'' \<mapsto> PStr '' Buy bread '']" "'' Buy bread ''"]
  note i0 = C5_update_description [of "''Buy bread''" "''t3''" 1 scenario_1
      "[''description'' \<mapsto> PStr '''']" "'' Buy bread ''"]
  from i3 h1 h2 have a: "update_task ''t3'' 3 ''Buy bread'' scenario_1 = (Inl NotFoundError, scenario_1)"
    by blast
  from i1 h1 h3 have "let tasks = load_tasks scenario_1; k = index_of tasks 1;
           t' = (tasks ! k)\<lparr>description := ''Buy bread'', updatedAt := ''t3''\<rparr>
       in k < length tasks \<and> id' (tasks ! k) = 1 \<and>
          update_task ''t3'' 1 ''Buy bread'' scenario_1 = (Inr t', save_tasks (tasks[k := t']))"
    by blast
  then have b: "update_task ''t3'' 1 ''Buy bread'' scenario_1 =
     (Inr \<lparr>id' = 1, description = ''Buy bread'', status = ''todo'', createdAt = ''t1'', updatedAt = ''t3''\<rparr>,
      save_tasks
       [\<lparr>id' = 1, description = ''Buy bread'', status = ''todo'', createdAt = ''t1'', updatedAt = ''t3''\<rparr>])"
    by (simp add: Let_def load_scenario_1 index_of_def)
  from i0 h4 have c: "update_view ''t3'' (Some 1) [''description'' \<mapsto> PStr ''''] scenario_1 =
     (Inl ValidationError, scenario_1)"
    by blast
  from i3 h5 h7 h2 have d: "update_view ''t3'' (Some 3) [''description'' \<mapsto> PStr '' Buy bread ''] scenario_1 =
     (Inl NotFoundError, scenario_1)"
    by blast
  from i1 h5 h7 h3 have "let tasks = load_tasks scenario_1; k = index_of tasks 1;
           t' = (tasks ! k)\<lparr>description := strip '' Buy bread '', updatedAt := ''t3''\<rparr>
       in update_view ''t3'' (Some 1) [''description'' \<mapsto> PStr '' Buy bread ''] scenario_1 =
            (Inr t', save_tasks (tasks[k := t']))"
    by blast
  then have e: "update_view ''t3'' (Some 1) [''description'' \<mapsto> PStr '' Buy bread ''] scenario_1 =
     (Inr \<lparr>id' = 1, description = ''Buy bread'', status = ''todo'', createdAt = ''t1'', updatedAt = ''t3''\<rparr>,
      save_tasks
       [\<lparr>id' = 1, description = ''Buy bread'', status = ''todo'', createdAt = ''t1'', updatedAt = ''t3''\<rparr>])"
    by (simp add: Let_def load_scenario_1 index_of_def h6)
  from h1 have h1a: "''Buy bread'' \<noteq> []" and h1b: "length ''Buy bread'' \<le> 500" by simp_all
  show ?thesis by (intro conjI h1a h1b h2 h3 a b h4 c h5 h6 d e)
qed

text \<open>
  The case left out: \<open>update_view\<close> has the test for a missing or empty description
  of \<open>create_view\<close> and not its test for white space, so a description of three blanks
  is accepted and the task is saved with the empty description.
\<close>

lemma update_view_blank:
  "update_view ''t3'' (Some 1) [''description'' \<mapsto> PStr ''   ''] scenario_1 =
     (Inr \<lparr>id' = 1, description = [], status = ''todo'', createdAt = ''t1'', updatedAt = ''t3''\<rparr>,
      save_tasks
       [\<lparr>id' = 1, description = [], status = ''todo'', createdAt = ''t1'', updatedAt = ''t3''\<rparr>])"
proof -
  have g: "data_get [''description'' \<mapsto> PStr ''   ''] ''description'' = PStr ''   ''"
    by (simp add: data_get_def)
  show ?thesis unfolding update_view_def g
    by (simp add: strip_def isspace_def load_scenario_1 find_task_def Let_def)
qed

subsection \<open>C6: listing by status\<close>

text \<open>
  C6 says that a filter that is given and is not one of the three status names fails with
  \<open>ValidationError\<close>. \<open>list_view\<close> (Django) tests the filter for truth first, so the
  empty filter lists every task.
\<close>

theorem C6_counterexample:
  "list_view [''status'' \<mapsto> ''''] scenario_1 =
     Inr [\<lparr>id' = 1, description = ''Buy milk'', status = ''todo'', createdAt = ''t1'',
           updatedAt = ''t1''\<rparr>]"
  by (simp add: list_view_def load_scenario_1)

text \<open>
  C6 as amended. Without a filter every task is listed (\<open>list_tasks\<close>; \<open>list_view\<close> without
  the parameter). With one of the three status names as the filter, exactly the tasks with
  that status are listed, in their order in the file. A filter that is not one of the
  three names fails with \<open>ValidationError\<close>, in \<open>list_view\<close> when it is not empty.
\<close>

theorem C6_list_by_status:
  "list_tasks f = load_tasks f \<and>
   (s \<in> set valid_statuses \<longrightarrow>
      list_tasks_by_status s f = Inr (filter (\<lambda>t. status t = s) (load_tasks f))) \<and>
   (s \<notin> set valid_statuses \<longrightarrow> list_tasks_by_status s f = Inl ValidationError) \<and>
   (query_params ''status'' = None \<longrightarrow> list_view query_params f = Inr (load_tasks f)) \<and>
   (query_params ''status'' = Some s \<and> s \<in> set valid_statuses \<longrightarrow>
      list_view query_params f = Inr (filter (\<lambda>t. status t = s) (load_tasks f))) \<and>
   (query_params ''status'' = Some s \<and> s \<noteq> [] \<and> s \<notin> set valid_statuses \<longrightarrow>
      list_view query_params f = Inl ValidationError)"
  by (auto simp: list_tasks_def list_tasks_by_status_def list_view_def valid_statuses_def)

text \<open>
  The theorem of C6 on the scenario after task 1 is marked done.
\<close>

theorem C6_list_by_status_witness:
  "''done'' \<in> set valid_statuses \<and> ''bogus'' \<notin> set valid_statuses \<and> ''bogus'' \<noteq> [] \<and>
   list_tasks_by_status ''done'' scenario_done =
     Inr [\<lparr>id' = 1, description = ''Buy milk'', status = ''done'', createdAt = ''t1'', updatedAt = ''t3''\<rparr>] \<and>
   list_tasks_by_status ''bogus'' scenario_done = Inl ValidationError \<and>
   list_view Map.empty scenario_done = Inr (load_tasks scenario_done) \<and>
   list_view [''status'' \<mapsto> ''done''] scenario_done =
     Inr [\<lparr>id' = 1, description = ''Buy milk'', status = ''done'', createdAt = ''t1'', updatedAt = ''t3''\<rparr>] \<and>
   list_view [''status'' \<mapsto> ''bogus''] scenario_done = Inl ValidationError"
proof -
  have h1: "''done'' \<in> set valid_statuses" by (simp add: valid_statuses_def)
  have h2: "''bogus'' \<notin> set valid_statuses" by (simp add: valid_statuses_def)
  have h3: "''bogus'' \<noteq> []" by simp
  have q0: "(Map.empty :: string \<rightharpoonup> string) ''status'' = None" by simp
  have q1: "[''status'' \<mapsto> ''done''] ''status'' = Some ''done''" by simp
  have q2: "[''status'' \<mapsto> ''bogus''] ''status'' = Some ''bogus''" by simp
  from C6_list_by_status [of scenario_done "''done''" "[''status'' \<mapsto> ''done'']"] h1 q1
  have "list_tasks_by_status ''done'' scenario_done =
          Inr (filter (\<lambda>t. status t = ''done'') (load_tasks scenario_done)) \<and>
        list_view [''status'' \<mapsto> ''done''] scenario_done =
          Inr (filter (\<lambda>t. status t = ''done'') (load_tasks scenario_done))"
    by blast
  then have a: "list_tasks_by_status ''done'' scenario_done =
     Inr [\<lparr>id' = 1, description = ''Buy milk'', status = ''done'', createdAt = ''t1'', updatedAt = ''t3''\<rparr>]"
    and b: "list_view [''status'' \<mapsto> ''done''] scenario_done =
     Inr [\<lparr>id' = 1, description = ''Buy milk'', status = ''done'', createdAt = ''t1'', updatedAt = ''t3''\<rparr>]"
    by (simp_all add: load_scenario_done)
  from C6_list_by_status [of scenario_done "''bogus''" "[''status'' \<mapsto> ''bogus'']"] h2 h3 q2
  have c: "list_tasks_by_status ''bogus'' scenario_done = Inl ValidationError"
    and d: "list_view [''status'' \<mapsto> ''bogus''] scenario_done = Inl ValidationError"
    by blast+
  from C6_list_by_status [of scenario_done "''done''" Map.empty] q0
  have e: "list_view Map.empty scenario_done = Inr (load_tasks scenario_done)"
    by blast
  show ?thesis by (intro conjI h1 h2 h3 a c e b d)
qed

subsection \<open>C7: get after delete\<close>

text \<open>
  C7: get fails with \<open>NotFoundError\<close> for an id that no task in the file has; the delete
  of an id in the file succeeds; and after a successful delete of an id, get of that id
  fails with \<open>NotFoundError\<close>. The last part is for a file in which the ids are unique,
  the invariant of the data model, which holds in every file the handlers leave
  (\<open>reachable_ids_unique\<close>); delete removes the first task with the id. For \<open>get_task\<close> and \<open>delete_task\<close> (FastAPI) and
  \<open>retrieve_view\<close> and \<open>destroy_view\<close> (Django).
\<close>

theorem C7_get_after_delete:
  "(i \<notin> id' ` set (load_tasks f) \<longrightarrow>
      get_task i f = Inl NotFoundError \<and> retrieve_view (Some i) f = Inl NotFoundError) \<and>
   (i \<in> id' ` set (load_tasks f) \<longrightarrow>
      fst (delete_task i f) = Inr () \<and> fst (destroy_view (Some i) f) = Inr ()) \<and>
   (distinct (map id' (load_tasks f)) \<and> delete_task i f = (Inr (), f') \<longrightarrow>
      get_task i f' = Inl NotFoundError \<and> retrieve_view (Some i) f' = Inl NotFoundError) \<and>
   (distinct (map id' (load_tasks f)) \<and> destroy_view (Some i) f = (Inr (), f') \<longrightarrow>
      get_task i f' = Inl NotFoundError \<and> retrieve_view (Some i) f' = Inl NotFoundError)"
proof -
  have a: "i \<notin> id' ` set (load_tasks f) \<longrightarrow>
      get_task i f = Inl NotFoundError \<and> retrieve_view (Some i) f = Inl NotFoundError"
    by (simp add: get_task_absent retrieve_view_absent)
  have b: "i \<in> id' ` set (load_tasks f) \<longrightarrow>
      fst (delete_task i f) = Inr () \<and> fst (destroy_view (Some i) f) = Inr ()"
    by (simp add: delete_task_found destroy_view_found)
  have gone: "i \<notin> id' ` set (load_tasks f')"
    if d: "distinct (map id' (load_tasks f))" and p: "i \<in> id' ` set (load_tasks f)"
      and f': "f' = save_tasks (pop (load_tasks f) (index_of (load_tasks f) i))"
    using pop_index_of_ids [OF d p] by (simp add: f' load_save)
  have c: "distinct (map id' (load_tasks f)) \<and> delete_task i f = (Inr (), f') \<longrightarrow>
      get_task i f' = Inl NotFoundError \<and> retrieve_view (Some i) f' = Inl NotFoundError"
  proof
    assume h: "distinct (map id' (load_tasks f)) \<and> delete_task i f = (Inr (), f')"
    then have p: "i \<in> id' ` set (load_tasks f)" using delete_task_Inr by blast
    from h delete_task_found [OF p]
    have "f' = save_tasks (pop (load_tasks f) (index_of (load_tasks f) i))" by simp
    with h p have "i \<notin> id' ` set (load_tasks f')" using gone by blast
    then show "get_task i f' = Inl NotFoundError \<and> retrieve_view (Some i) f' = Inl NotFoundError"
      by (simp add: get_task_absent retrieve_view_absent)
  qed
  have e: "distinct (map id' (load_tasks f)) \<and> destroy_view (Some i) f = (Inr (), f') \<longrightarrow>
      get_task i f' = Inl NotFoundError \<and> retrieve_view (Some i) f' = Inl NotFoundError"
  proof
    assume h: "distinct (map id' (load_tasks f)) \<and> destroy_view (Some i) f = (Inr (), f')"
    then have p: "i \<in> id' ` set (load_tasks f)" using destroy_view_Inr by blast
    from h destroy_view_found [OF p]
    have "f' = save_tasks (pop (load_tasks f) (index_of (load_tasks f) i))" by simp
    with h p have "i \<notin> id' ` set (load_tasks f')" using gone by blast
    then show "get_task i f' = Inl NotFoundError \<and> retrieve_view (Some i) f' = Inl NotFoundError"
      by (simp add: get_task_absent retrieve_view_absent)
  qed
  from a b c e show ?thesis by blast
qed

text \<open>
  The theorem of C7 on the two tasks of the scenario: id 3 is absent, task 2 is deleted.
\<close>

theorem C7_get_after_delete_witness:
  "3 \<notin> id' ` set (load_tasks scenario_2) \<and>
   get_task 3 scenario_2 = Inl NotFoundError \<and>
   retrieve_view (Some 3) scenario_2 = Inl NotFoundError \<and>
   2 \<in> id' ` set (load_tasks scenario_2) \<and>
   distinct (map id' (load_tasks scenario_2)) \<and>
   delete_task 2 scenario_2 = (Inr (), scenario_3) \<and>
   destroy_view (Some 2) scenario_2 = (Inr (), scenario_3) \<and>
   get_task 2 scenario_3 = Inl NotFoundError \<and>
   retrieve_view (Some 2) scenario_3 = Inl NotFoundError"
proof -
  have h1: "3 \<notin> id' ` set (load_tasks scenario_2)" by (simp add: load_scenario_2)
  have h2: "2 \<in> id' ` set (load_tasks scenario_2)" by (simp add: load_scenario_2)
  have h3: "distinct (map id' (load_tasks scenario_2))" by (simp add: load_scenario_2)
  have h4: "delete_task 2 scenario_2 = (Inr (), scenario_3)"
    by (simp add: scenario_3_def delete_task_def find_task_index_def load_scenario_2 Let_def)
  have h5: "destroy_view (Some 2) scenario_2 = (Inr (), scenario_3)"
    by (simp add: scenario_3_eq destroy_view_def find_task_def load_scenario_2 pop_def Let_def)
  from C7_get_after_delete [of 3 scenario_2 scenario_3] h1
  have a: "get_task 3 scenario_2 = Inl NotFoundError"
    and b: "retrieve_view (Some 3) scenario_2 = Inl NotFoundError"
    by blast+
  from C7_get_after_delete [of 2 scenario_2 scenario_3] h3 h4
  have c: "get_task 2 scenario_3 = Inl NotFoundError"
    and d: "retrieve_view (Some 2) scenario_3 = Inl NotFoundError"
    by blast+
  show ?thesis by (intro conjI h1 a b h2 h3 h4 h5 c d)
qed

subsection \<open>C8: save after load\<close>

text \<open>
  C8: the text that is written for the list that was loaded decodes to the file that
  \<open>save_tasks\<close> leaves; loading that file gives the same list, field for field and in the
  same order; and saving it again leaves the same file.
\<close>

theorem C8_save_load_roundtrip:
  "decode_text (json_dumps (load_tasks f)) = save_tasks (load_tasks f) \<and>
   load_tasks (save_tasks (load_tasks f)) = load_tasks f \<and>
   save_tasks (load_tasks (save_tasks (load_tasks f))) = save_tasks (load_tasks f)"
proof -
  have a: "decode_text (json_dumps (load_tasks f)) = save_tasks (load_tasks f)"
    by (simp add: decode_text_json_dumps save_tasks_def json_dump_def)
  have b: "load_tasks (save_tasks (load_tasks f)) = load_tasks f"
    by (rule load_save)
  have c: "save_tasks (load_tasks (save_tasks (load_tasks f))) = save_tasks (load_tasks f)"
    by (simp only: load_save)
  show ?thesis by (intro conjI a b c)
qed

subsection \<open>C9: the frame of the status update\<close>

text \<open>
  C9: a successful update of the status of id \<open>i\<close> keeps the length of the list, changes
  the task at the position of the first task with id \<open>i\<close> only, and in that task the
  status and \<open>updatedAt\<close> only: its id, description and \<open>createdAt\<close> are as before, and
  every task at another position is as before. For \<open>update_task_status\<close> (FastAPI) and
  \<open>status_view\<close> (Django).
\<close>

theorem C9_update_status_frame:
  "(update_task_status now i s f = (Inr t', f') \<longrightarrow>
      (let tasks = load_tasks f; tasks' = load_tasks f'; k = index_of tasks i
       in length tasks' = length tasks \<and> k < length tasks \<and> id' (tasks ! k) = i \<and>
          tasks' ! k = t' \<and>
          id' t' = id' (tasks ! k) \<and> description t' = description (tasks ! k) \<and>
          createdAt t' = createdAt (tasks ! k) \<and> status t' = s \<and> updatedAt t' = now \<and>
          (\<forall>j<length tasks. j \<noteq> k \<longrightarrow> tasks' ! j = tasks ! j))) \<and>
   (status_view now (Some i) data f = (Inr t', f') \<longrightarrow>
      (let tasks = load_tasks f; tasks' = load_tasks f'; k = index_of tasks i
       in length tasks' = length tasks \<and> k < length tasks \<and> id' (tasks ! k) = i \<and>
          tasks' ! k = t' \<and>
          id' t' = id' (tasks ! k) \<and> description t' = description (tasks ! k) \<and>
          createdAt t' = createdAt (tasks ! k) \<and> PStr (status t') = data_get data ''status'' \<and>
          updatedAt t' = now \<and>
          (\<forall>j<length tasks. j \<noteq> k \<longrightarrow> tasks' ! j = tasks ! j)))"
proof (intro conjI impI)
  assume h: "update_task_status now i s f = (Inr t', f')"
  from update_task_status_Inr [OF h] have v: "s \<in> set valid_statuses"
    and p: "i \<in> id' ` set (load_tasks f)" by auto
  from h update_task_status_found [OF v p, of now]
  have t': "t' = (load_tasks f ! index_of (load_tasks f) i)\<lparr>status := s, updatedAt := now\<rparr>"
    and f': "f' = save_tasks ((load_tasks f)[index_of (load_tasks f) i := t'])" by auto
  show "let tasks = load_tasks f; tasks' = load_tasks f'; k = index_of tasks i
       in length tasks' = length tasks \<and> k < length tasks \<and> id' (tasks ! k) = i \<and>
          tasks' ! k = t' \<and>
          id' t' = id' (tasks ! k) \<and> description t' = description (tasks ! k) \<and>
          createdAt t' = createdAt (tasks ! k) \<and> status t' = s \<and> updatedAt t' = now \<and>
          (\<forall>j<length tasks. j \<noteq> k \<longrightarrow> tasks' ! j = tasks ! j)"
    using index_of_less [OF p] index_of_id [OF p]
    by (simp add: Let_def f' load_save) (simp add: t')
next
  assume h: "status_view now (Some i) data f = (Inr t', f')"
  from status_view_Inr [OF h] obtain s where d: "data_get data ''status'' = PStr s"
    and v: "s \<in> set valid_statuses" and p: "i \<in> id' ` set (load_tasks f)" by auto
  from h status_view_found [OF v p d, of now]
  have t': "t' = (load_tasks f ! index_of (load_tasks f) i)\<lparr>status := s, updatedAt := now\<rparr>"
    and f': "f' = save_tasks ((load_tasks f)[index_of (load_tasks f) i := t'])" by auto
  show "let tasks = load_tasks f; tasks' = load_tasks f'; k = index_of tasks i
       in length tasks' = length tasks \<and> k < length tasks \<and> id' (tasks ! k) = i \<and>
          tasks' ! k = t' \<and>
          id' t' = id' (tasks ! k) \<and> description t' = description (tasks ! k) \<and>
          createdAt t' = createdAt (tasks ! k) \<and> PStr (status t') = data_get data ''status'' \<and>
          updatedAt t' = now \<and>
          (\<forall>j<length tasks. j \<noteq> k \<longrightarrow> tasks' ! j = tasks ! j)"
    using index_of_less [OF p] index_of_id [OF p]
    by (simp add: Let_def f' load_save d) (simp add: t')
qed

text \<open>
  The theorem of C9 on the scenario: marking task 1 done leaves task 2 as it was.
\<close>

theorem C9_update_status_frame_witness:
  "update_task_status ''t3'' 1 ''done'' scenario_2 =
     (Inr \<lparr>id' = 1, description = ''Buy milk'', status = ''done'', createdAt = ''t1'', updatedAt = ''t3''\<rparr>,
      save_tasks
       [\<lparr>id' = 1, description = ''Buy milk'', status = ''done'', createdAt = ''t1'', updatedAt = ''t3''\<rparr>,
        \<lparr>id' = 2, description = ''Walk dog'', status = ''todo'', createdAt = ''t2'', updatedAt = ''t2''\<rparr>]) \<and>
   status_view ''t3'' (Some 1) [''status'' \<mapsto> PStr ''done''] scenario_2 =
     (Inr \<lparr>id' = 1, description = ''Buy milk'', status = ''done'', createdAt = ''t1'', updatedAt = ''t3''\<rparr>,
      save_tasks
       [\<lparr>id' = 1, description = ''Buy milk'', status = ''done'', createdAt = ''t1'', updatedAt = ''t3''\<rparr>,
        \<lparr>id' = 2, description = ''Walk dog'', status = ''todo'', createdAt = ''t2'', updatedAt = ''t2''\<rparr>]) \<and>
   index_of (load_tasks scenario_2) 1 = 0 \<and>
   load_tasks (save_tasks
       [\<lparr>id' = 1, description = ''Buy milk'', status = ''done'', createdAt = ''t1'', updatedAt = ''t3''\<rparr>,
        \<lparr>id' = 2, description = ''Walk dog'', status = ''todo'', createdAt = ''t2'', updatedAt = ''t2''\<rparr>]) ! 1 =
     load_tasks scenario_2 ! 1"
proof -
  let ?T = "\<lparr>id' = 1, description = ''Buy milk'', status = ''done'', createdAt = ''t1'', updatedAt = ''t3''\<rparr>"
  let ?F = "save_tasks
       [?T, \<lparr>id' = 2, description = ''Walk dog'', status = ''todo'', createdAt = ''t2'', updatedAt = ''t2''\<rparr>]"
  have k: "index_of (load_tasks scenario_2) 1 = 0" by (simp add: load_scenario_2 index_of_def)
  have a: "update_task_status ''t3'' 1 ''done'' scenario_2 = (Inr ?T, ?F)"
    by (simp add: update_task_status_def TaskStatus_def valid_statuses_def load_scenario_2
        find_task_index_def Let_def)
  have b: "status_view ''t3'' (Some 1) [''status'' \<mapsto> PStr ''done''] scenario_2 = (Inr ?T, ?F)"
  proof -
    have g: "data_get [''status'' \<mapsto> PStr ''done''] ''status'' = PStr ''done''"
      by (simp add: data_get_def)
    show ?thesis unfolding status_view_def g
      by (simp add: valid_statuses_def load_scenario_2 find_task_def Let_def)
  qed
  from C9_update_status_frame [of "''t3''" 1 "''done''" scenario_2 ?T ?F, THEN conjunct1, THEN mp, OF a]
  have "\<forall>j<length (load_tasks scenario_2). j \<noteq> index_of (load_tasks scenario_2) 1 \<longrightarrow>
          load_tasks ?F ! j = load_tasks scenario_2 ! j"
    unfolding Let_def by (elim conjE)
  then have "1 < length (load_tasks scenario_2) \<longrightarrow> 1 \<noteq> index_of (load_tasks scenario_2) 1 \<longrightarrow>
          load_tasks ?F ! 1 = load_tasks scenario_2 ! 1"
    by (rule spec)
  then have c: "load_tasks ?F ! 1 = load_tasks scenario_2 ! 1"
    by (simp add: k) (simp add: load_scenario_2)
  show ?thesis by (intro conjI a b k c)
qed

subsection \<open>C10: the empty filter in the Django list view\<close>

text \<open>
  C10: \<open>list_view\<close> with the status parameter given as the empty string does not fail: it
  lists every task of the file.
\<close>

theorem C10_empty_filter_lists_all:
  "list_view (query_params(''status'' \<mapsto> [])) f = Inr (load_tasks f)"
  by (simp add: list_view_def)

end
